theory Spec2Isabelle
  imports Main "HOL-Library.Word"
begin

section \<open>The block storage engine of \<^verbatim>\<open>block.c\<close>\<close>

text \<open>
  The engine shards a virtual file into 4096-byte blocks, each kept in a file
  \<^verbatim>\<open><name>.blocks/block_NNNNNN\<close>. The model below follows \<^verbatim>\<open>block.c\<close> function by
  function. The file system is an explicit state that every operation takes and returns.

  Conventions of the embedding:
  \<^item> a C \<^verbatim>\<open>char\<close> is an \<^typ>\<open>8 word\<close>; a \<^verbatim>\<open>char *\<close> path is a \<^typ>\<open>string\<close>;
  \<^item> a pointer that may be \<^verbatim>\<open>NULL\<close> is an option; every operation returns the C return
    value (an \<^typ>\<open>int\<close>, \<open>-1\<close> for every failure) together with the new state;
  \<^item> \<^verbatim>\<open>int\<close>, \<^verbatim>\<open>long long\<close> values are integers; after the guards that reject negative
    arguments the iterations run on naturals. The conversion of a \<^verbatim>\<open>long long\<close> block index
    to \<^verbatim>\<open>int\<close> is written out (reduction modulo \<open>2^32\<close>, as GCC and Clang define it).
    Overflow of \<^verbatim>\<open>long long\<close> arithmetic is undefined in C and is not modelled;
  \<^item> a caller's buffer is a list of bytes; writing through a pointer into it replaces a
    segment of the list.
\<close>

subsection \<open>Constants and C conversions\<close>

type_synonym byte = "8 word"

abbreviation BLOCK_SIZE :: nat where "BLOCK_SIZE \<equiv> 4096"
abbreviation MAX_PATH_LEN :: nat where "MAX_PATH_LEN \<equiv> 1024"

text \<open>Conversion of a value to the 32-bit \<^verbatim>\<open>int\<close>: the value modulo \<open>2^32\<close>, read as signed.\<close>

definition c_int :: "int \<Rightarrow> int" where
  "c_int x = signed_take_bit 31 x"

subsection \<open>Formatting: \<^verbatim>\<open>snprintf\<close> and \<^verbatim>\<open>%06d\<close>\<close>

definition digit_char :: "nat \<Rightarrow> char" where
  "digit_char d = ''0123456789'' ! d"

function dec_digits :: "nat \<Rightarrow> string" where
  "dec_digits n = (if n < 10 then [digit_char n] else dec_digits (n div 10) @ [digit_char (n mod 10)])"
  by pat_completeness auto
termination
  by (relation "measure (\<lambda>n. n)") auto

declare dec_digits.simps [simp del]

definition zero_pad :: "nat \<Rightarrow> string \<Rightarrow> string" where
  "zero_pad w s = replicate (w - length s) (CHR ''0'') @ s"

text \<open>\<^verbatim>\<open>%06d\<close>: minimum field width six, padded with zeros after the sign.\<close>

definition fmt_06d :: "int \<Rightarrow> string" where
  "fmt_06d i = (if i < 0 then CHR ''-'' # zero_pad 5 (dec_digits (nat (- i)))
                else zero_pad 6 (dec_digits (nat i)))"

text \<open>
  \<^verbatim>\<open>snprintf(buf, n, ...)\<close> stores at most \<open>n - 1\<close> characters of the formatted text and
  returns the length of the whole text.
\<close>

definition snprintf :: "nat \<Rightarrow> string \<Rightarrow> string \<times> int" where
  "snprintf n s = (take (n - 1) s, int (length s))"

definition get_block_dir :: "string \<Rightarrow> string" where
  "get_block_dir filename = fst (snprintf MAX_PATH_LEN (filename @ ''.blocks''))"

text \<open>Returns the C return value and the text left in \<^verbatim>\<open>block_path\<close>.\<close>

definition get_block_path :: "string \<Rightarrow> int \<Rightarrow> int \<times> string" where
  "get_block_path filename block_num =
     (let block_dir = get_block_dir filename;
          (block_path, result) = snprintf MAX_PATH_LEN (block_dir @ ''/block_'' @ fmt_06d block_num)
      in (if result \<ge> int MAX_PATH_LEN then - 1 else 0, block_path))"

subsection \<open>The file system and the libc calls the engine makes\<close>

text \<open>
  A state holds the regular files (path to content) and the directories. The calls fail
  for the causes the state can express: a missing file, a missing parent directory, a
  directory where a file is expected. Once a stream is open, \<^verbatim>\<open>fseek\<close>, \<^verbatim>\<open>fread\<close>,
  \<^verbatim>\<open>fwrite\<close> and \<^verbatim>\<open>fclose\<close> complete; \<^verbatim>\<open>malloc\<close> and \<^verbatim>\<open>strdup\<close> succeed.
\<close>

record fs_state =
  files :: "string \<rightharpoonup> byte list"
  dirs :: "string set"

datatype errno = ENOENT | EISDIR | EEXIST

definition parent_dir :: "string \<Rightarrow> string" where
  "parent_dir p = (if CHR ''/'' \<in> set p
                   then rev (tl (dropWhile (\<lambda>c. c \<noteq> CHR ''/'') (rev p)))
                   else ''.'')"

text \<open>
  \<^verbatim>\<open>stat\<close>: the \<^verbatim>\<open>st_size\<close> on success. The size of a directory is set by the file
  system; the model takes the 4096 bytes that ext4 reports.
\<close>

definition dir_st_size :: nat where
  "dir_st_size = 4096"

definition stat :: "fs_state \<Rightarrow> string \<Rightarrow> nat option" where
  "stat fs p = (case files fs p of
                  Some c \<Rightarrow> Some (length c)
                | None \<Rightarrow> (if p \<in> dirs fs then Some dir_st_size else None))"

definition mkdir :: "fs_state \<Rightarrow> string \<Rightarrow> errno + fs_state" where
  "mkdir fs p = (if p \<in> dirs fs \<or> files fs p \<noteq> None then Inl EEXIST
                 else if parent_dir p \<notin> dirs fs then Inl ENOENT
                 else Inr (fs\<lparr>dirs := insert p (dirs fs)\<rparr>))"

definition unlink :: "fs_state \<Rightarrow> string \<Rightarrow> errno + fs_state" where
  "unlink fs p = (case files fs p of
                    Some c \<Rightarrow> Inr (fs\<lparr>files := (files fs)(p := None)\<rparr>)
                  | None \<Rightarrow> (if p \<in> dirs fs then Inl EISDIR else Inl ENOENT))"

text \<open>A stream open for reading: the content of the file and the position.\<close>

type_synonym rstream = "byte list \<times> nat"

definition fopen_rb :: "fs_state \<Rightarrow> string \<Rightarrow> rstream option" where
  "fopen_rb fs p = (case files fs p of Some c \<Rightarrow> Some (c, 0) | None \<Rightarrow> None)"

definition fseek :: "rstream \<Rightarrow> nat \<Rightarrow> int \<times> rstream" where
  "fseek f pos = (0, (fst f, pos))"

text \<open>\<^verbatim>\<open>fread(buf, 1, n, f)\<close>: the bytes delivered; their number is the return value.\<close>

definition fread :: "nat \<Rightarrow> rstream \<Rightarrow> byte list" where
  "fread n f = take n (drop (snd f) (fst f))"

text \<open>
  \<^verbatim>\<open>fopen(p, "wb")\<close> creates the file or cuts it to length zero. A stream open for
  writing is the path; \<^verbatim>\<open>fwrite\<close> appends to the file.
\<close>

definition fopen_wb :: "fs_state \<Rightarrow> string \<Rightarrow> fs_state option" where
  "fopen_wb fs p = (if p \<in> dirs fs \<or> parent_dir p \<notin> dirs fs then None
                    else Some (fs\<lparr>files := (files fs)(p \<mapsto> [])\<rparr>))"

definition fwrite :: "fs_state \<Rightarrow> string \<Rightarrow> byte list \<Rightarrow> nat \<Rightarrow> nat \<times> fs_state" where
  "fwrite fs p data n =
     (let old = (case files fs p of Some c \<Rightarrow> c | None \<Rightarrow> [])
      in (length (take n data), fs\<lparr>files := (files fs)(p \<mapsto> old @ take n data)\<rparr>))"

text \<open>\<^verbatim>\<open>memcpy(dst + i, src, length src)\<close> and \<^verbatim>\<open>memset(dst + i, c, n)\<close> on a buffer.\<close>

definition memcpy :: "byte list \<Rightarrow> nat \<Rightarrow> byte list \<Rightarrow> byte list" where
  "memcpy dst i src = take i dst @ src @ drop (i + length src) dst"

definition memset :: "byte list \<Rightarrow> nat \<Rightarrow> byte \<Rightarrow> nat \<Rightarrow> byte list" where
  "memset dst i c n = memcpy dst i (replicate n c)"

subsection \<open>Open and close\<close>

record block_file_t =
  filename :: string

definition ensure_block_dir :: "fs_state \<Rightarrow> string \<Rightarrow> int \<times> fs_state" where
  "ensure_block_dir fs fname =
     (let block_dir = get_block_dir fname
      in if stat fs block_dir = None
         then (case mkdir fs block_dir of Inl e \<Rightarrow> (- 1, fs) | Inr fs' \<Rightarrow> (0, fs'))
         else (0, fs))"

definition block_open :: "fs_state \<Rightarrow> string \<Rightarrow> int \<times> block_file_t option \<times> fs_state" where
  "block_open fs fname =
     (case ensure_block_dir fs fname of (rc, fs') \<Rightarrow>
        if rc \<noteq> 0 then (- 1, None, fs')
        else (0, Some \<lparr>filename = fname\<rparr>, fs'))"

definition block_close :: "fs_state \<Rightarrow> block_file_t option \<Rightarrow> int \<times> fs_state" where
  "block_close fs bf = (case bf of None \<Rightarrow> (0, fs) | Some h \<Rightarrow> (0, fs))"

subsection \<open>Read\<close>

text \<open>The length of the sub-span inside the current block (\<^verbatim>\<open>to_read\<close>, \<^verbatim>\<open>to_write\<close>).\<close>

definition sub_span :: "nat \<Rightarrow> nat \<Rightarrow> nat" where
  "sub_span sz offset =
     (let block_offset = offset mod BLOCK_SIZE
      in if sz < BLOCK_SIZE - block_offset then sz else BLOCK_SIZE - block_offset)"

text \<open>
  One pass through the body of the loop of \<^verbatim>\<open>block_read\<close>: \<open>buf\<close> is the position of the
  pointer \<^verbatim>\<open>buf\<close> in the caller's buffer. \<open>None\<close> is the \<^verbatim>\<open>return -1\<close>.
\<close>

definition read_block :: "fs_state \<Rightarrow> string \<Rightarrow> byte list \<Rightarrow> nat \<Rightarrow> nat \<Rightarrow> nat \<Rightarrow> byte list option" where
  "read_block fs fname buffer buf sz offset =
     (let block_num = c_int (int (offset div BLOCK_SIZE));
          block_offset = offset mod BLOCK_SIZE;
          to_read = sub_span sz offset
      in case get_block_path fname block_num of (rc, block_path) \<Rightarrow>
         if rc \<noteq> 0 then None
         else (case fopen_rb fs block_path of
                 None \<Rightarrow> Some (memset buffer buf 0 to_read)
               | Some block_file \<Rightarrow>
                   (case fseek block_file block_offset of (rc', block_file') \<Rightarrow>
                      if rc' \<noteq> 0 then None
                      else let data = fread to_read block_file';
                               bytes_read = length data;
                               buffer' = memcpy buffer buf data
                           in Some (if bytes_read < to_read
                                    then memset buffer' (buf + bytes_read) 0 (to_read - bytes_read)
                                    else buffer'))))"

function read_loop :: "fs_state \<Rightarrow> string \<Rightarrow> byte list \<Rightarrow> nat \<Rightarrow> nat \<Rightarrow> nat \<Rightarrow> int \<Rightarrow> int \<times> byte list" where
  "read_loop fs fname buffer buf sz offset total_read =
     (if sz > 0
      then (case read_block fs fname buffer buf sz offset of
              None \<Rightarrow> (- 1, buffer)
            | Some buffer' \<Rightarrow>
                read_loop fs fname buffer' (buf + sub_span sz offset) (sz - sub_span sz offset)
                  (offset + sub_span sz offset) (total_read + int (sub_span sz offset)))
      else (total_read, buffer))"
  by pat_completeness auto
termination
  by (relation "measure (\<lambda>(fs, fname, buffer, buf, sz, offset, total_read). sz)")
     (auto simp: sub_span_def Let_def)

declare read_loop.simps [simp del]

definition block_read ::
  "fs_state \<Rightarrow> block_file_t option \<Rightarrow> byte list option \<Rightarrow> int \<Rightarrow> int \<Rightarrow> int \<times> byte list option" where
  "block_read fs bf buffer sz offset =
     (case bf of
        None \<Rightarrow> (- 1, buffer)
      | Some h \<Rightarrow>
          (case buffer of
             None \<Rightarrow> (- 1, buffer)
           | Some b \<Rightarrow>
               if sz < 0 \<or> offset < 0 then (- 1, buffer)
               else (case read_loop fs (filename h) b 0 (nat sz) (nat offset) 0 of
                       (r, b') \<Rightarrow> (r, Some b'))))"

subsection \<open>Write\<close>

text \<open>
  One pass through the body of the loop of \<^verbatim>\<open>block_write\<close>. The flag is \<open>False\<close>
  at a \<^verbatim>\<open>return -1\<close>; the state reached so far stays as it is (nothing is rolled back).
\<close>

definition write_block :: "fs_state \<Rightarrow> string \<Rightarrow> byte list \<Rightarrow> nat \<Rightarrow> nat \<Rightarrow> nat \<Rightarrow> bool \<times> fs_state" where
  "write_block fs fname buffer buf sz offset =
     (let block_num = c_int (int (offset div BLOCK_SIZE));
          block_offset = offset mod BLOCK_SIZE;
          to_write = sub_span sz offset;
          src = take to_write (drop buf buffer)
      in case get_block_path fname block_num of (rc, block_path) \<Rightarrow>
         if rc \<noteq> 0 then (False, fs)
         else if block_offset \<noteq> 0 \<or> to_write \<noteq> BLOCK_SIZE
         then (let block_data = memset (replicate BLOCK_SIZE 0) 0 0 BLOCK_SIZE;
                   block_data = (case fopen_rb fs block_path of
                                   Some existing \<Rightarrow> memcpy block_data 0 (fread BLOCK_SIZE existing)
                                 | None \<Rightarrow> block_data);
                   block_data = memcpy block_data block_offset src
               in case fopen_wb fs block_path of
                    None \<Rightarrow> (False, fs)
                  | Some fs1 \<Rightarrow>
                      (case fwrite fs1 block_path block_data BLOCK_SIZE of (n, fs2) \<Rightarrow>
                         if n \<noteq> BLOCK_SIZE then (False, fs2) else (True, fs2)))
         else (case fopen_wb fs block_path of
                 None \<Rightarrow> (False, fs)
               | Some fs1 \<Rightarrow>
                   (case fwrite fs1 block_path src to_write of (n, fs2) \<Rightarrow>
                      if n \<noteq> to_write then (False, fs2) else (True, fs2))))"

function write_loop :: "fs_state \<Rightarrow> string \<Rightarrow> byte list \<Rightarrow> nat \<Rightarrow> nat \<Rightarrow> nat \<Rightarrow> int \<Rightarrow> int \<times> fs_state" where
  "write_loop fs fname buffer buf sz offset total_written =
     (if sz > 0
      then (case write_block fs fname buffer buf sz offset of
              (ok, fs') \<Rightarrow>
                if \<not> ok then (- 1, fs')
                else write_loop fs' fname buffer (buf + sub_span sz offset) (sz - sub_span sz offset)
                       (offset + sub_span sz offset) (total_written + int (sub_span sz offset)))
      else (total_written, fs))"
  by pat_completeness auto
termination
  by (relation "measure (\<lambda>(fs, fname, buffer, buf, sz, offset, total_written). sz)")
     (auto simp: sub_span_def Let_def)

declare write_loop.simps [simp del]

definition block_write ::
  "fs_state \<Rightarrow> block_file_t option \<Rightarrow> byte list option \<Rightarrow> int \<Rightarrow> int \<Rightarrow> int \<times> fs_state" where
  "block_write fs bf buffer sz offset =
     (case bf of
        None \<Rightarrow> (- 1, fs)
      | Some h \<Rightarrow>
          (case buffer of
             None \<Rightarrow> (- 1, fs)
           | Some b \<Rightarrow>
               if sz < 0 \<or> offset < 0 then (- 1, fs)
               else write_loop fs (filename h) b 0 (nat sz) (nat offset) 0))"

subsection \<open>Truncate\<close>

text \<open>
  The deletion loop of \<^verbatim>\<open>block_truncate\<close>. The flag of the result is \<open>True\<close> when the loop
  left the function with \<^verbatim>\<open>return -1\<close>, \<open>False\<close> when it ended or took the \<^verbatim>\<open>break\<close>.
\<close>

function unlink_loop :: "fs_state \<Rightarrow> string \<Rightarrow> int \<Rightarrow> bool \<times> fs_state" where
  "unlink_loop fs fname block_num =
     (if block_num < 10000
      then (case get_block_path fname block_num of (rc, block_path) \<Rightarrow>
              if rc \<noteq> 0 then (True, fs)
              else (case unlink fs block_path of
                      Inr fs' \<Rightarrow> unlink_loop fs' fname (block_num + 1)
                    | Inl e \<Rightarrow> if e \<noteq> ENOENT then (False, fs)
                               else unlink_loop fs fname (block_num + 1)))
      else (False, fs))"
  by pat_completeness auto
termination
  by (relation "measure (\<lambda>(fs, fname, block_num). nat (10000 - block_num))") auto

declare unlink_loop.simps [simp del]

definition block_truncate :: "fs_state \<Rightarrow> block_file_t option \<Rightarrow> int \<Rightarrow> int \<times> fs_state" where
  "block_truncate fs bf sz =
     (case bf of
        None \<Rightarrow> (- 1, fs)
      | Some h \<Rightarrow>
          if sz < 0 then (- 1, fs)
          else (let last_block = c_int ((sz + int BLOCK_SIZE - 1) div int BLOCK_SIZE)
                in case unlink_loop fs (filename h) last_block of (returned, fs1) \<Rightarrow>
                   if returned then (- 1, fs1)
                   else if sz > 0 \<and> sz mod int BLOCK_SIZE \<noteq> 0
                   then (let last_block_num = c_int ((sz - 1) div int BLOCK_SIZE);
                             last_block_size = nat (c_int (sz mod int BLOCK_SIZE))
                         in case get_block_path (filename h) last_block_num of (rc, block_path) \<Rightarrow>
                            (let block_data = memset (replicate BLOCK_SIZE 0) 0 0 BLOCK_SIZE;
                                 block_data = (case fopen_rb fs1 block_path of
                                                 Some existing \<Rightarrow> memcpy block_data 0 (fread BLOCK_SIZE existing)
                                               | None \<Rightarrow> block_data)
                             in case fopen_wb fs1 block_path of
                                  Some fs2 \<Rightarrow> (0, snd (fwrite fs2 block_path block_data last_block_size))
                                | None \<Rightarrow> (0, fs1)))
                   else (0, fs1)))"

subsection \<open>Size\<close>

function size_loop :: "fs_state \<Rightarrow> string \<Rightarrow> int \<Rightarrow> int \<Rightarrow> int" where
  "size_loop fs fname block_num max_size =
     (if block_num < 10000
      then (case get_block_path fname block_num of (rc, block_path) \<Rightarrow>
              if rc \<noteq> 0 then - 1
              else (case stat fs block_path of
                      Some st_size \<Rightarrow>
                        (let block_end = (block_num + 1) * int BLOCK_SIZE;
                             block_end = (if st_size < BLOCK_SIZE
                                          then block_num * int BLOCK_SIZE + int st_size
                                          else block_end)
                         in size_loop fs fname (block_num + 1)
                              (if block_end > max_size then block_end else max_size))
                    | None \<Rightarrow> size_loop fs fname (block_num + 1) max_size))
      else max_size)"
  by pat_completeness auto
termination
  by (relation "measure (\<lambda>(fs, fname, block_num, max_size). nat (10000 - block_num))") auto

declare size_loop.simps [simp del]

definition block_file_size :: "fs_state \<Rightarrow> block_file_t option \<Rightarrow> int" where
  "block_file_size fs bf =
     (case bf of
        None \<Rightarrow> - 1
      | Some h \<Rightarrow> size_loop fs (filename h) 0 0)"

subsection \<open>Notions used to state the properties\<close>

text \<open>The value of a string of decimal digits (used to show that \<^verbatim>\<open>%06d\<close> is injective).\<close>

definition digit_val :: "char \<Rightarrow> nat" where
  "digit_val c = of_char c - 48"

definition str_val :: "string \<Rightarrow> nat" where
  "str_val s = foldl (\<lambda>a c. 10 * a + digit_val c) 0 s"

text \<open>The whole path of a block file, before \<^verbatim>\<open>snprintf\<close> cuts anything.\<close>

definition block_file_path :: "string \<Rightarrow> int \<Rightarrow> string" where
  "block_file_path fname block_num = fname @ ''.blocks'' @ ''/block_'' @ fmt_06d block_num"

text \<open>
  The logical content of the virtual file: the byte at a position is the byte of the block
  file at that place, and zero where the block file is absent or too short. The block file
  of a position is the one the engine addresses, its index converted to \<^verbatim>\<open>int\<close>.
\<close>

definition block_bytes :: "fs_state \<Rightarrow> string \<Rightarrow> int \<Rightarrow> byte list" where
  "block_bytes fs fname block_num =
     (case files fs (block_file_path fname block_num) of None \<Rightarrow> [] | Some c \<Rightarrow> c)"

definition vbyte :: "fs_state \<Rightarrow> string \<Rightarrow> nat \<Rightarrow> byte" where
  "vbyte fs fname pos =
     (let c = block_bytes fs fname (c_int (int (pos div BLOCK_SIZE)))
      in if pos mod BLOCK_SIZE < length c then c ! (pos mod BLOCK_SIZE) else 0)"

text \<open>Two positions that the engine stores in the same byte of the same block file.\<close>

definition same_cell :: "nat \<Rightarrow> nat \<Rightarrow> bool" where
  "same_cell q p \<longleftrightarrow>
     c_int (int (q div BLOCK_SIZE)) = c_int (int (p div BLOCK_SIZE)) \<and> q mod BLOCK_SIZE = p mod BLOCK_SIZE"

text \<open>
  What one block index contributes to the size: nothing when \<^verbatim>\<open>stat\<close> finds no entry at
  the path of the block, else the index times the block size plus the length of the entry,
  capped at the block size.
\<close>

definition block_end :: "fs_state \<Rightarrow> string \<Rightarrow> int \<Rightarrow> int" where
  "block_end fs fname k =
     (case stat fs (block_file_path fname k) of
        None \<Rightarrow> 0
      | Some st_size \<Rightarrow> k * int BLOCK_SIZE + int (min st_size BLOCK_SIZE))"

text \<open>
  The logical size in the words of the specification: the maximum over all existing block
  files, whatever their index, and zero when there is none.
\<close>

definition logical_size :: "fs_state \<Rightarrow> string \<Rightarrow> int" where
  "logical_size fs fname =
     (let S = {k * int BLOCK_SIZE + int (min (length c) BLOCK_SIZE) | k c.
                 0 \<le> k \<and> files fs (block_file_path fname k) = Some c}
      in if S = {} then 0 else Max S)"

text \<open>A virtual file without any block: \<^verbatim>\<open>stat\<close> finds nothing at any block path.\<close>

definition no_blocks :: "fs_state \<Rightarrow> string \<Rightarrow> bool" where
  "no_blocks fs fname \<longleftrightarrow> (\<forall>k. stat fs (block_file_path fname k) = None)"

text \<open>The content of a block as the engine loads it: 4096 bytes, zeros after the file's end.\<close>

definition zero_padded :: "byte list \<Rightarrow> byte list" where
  "zero_padded c = take BLOCK_SIZE c @ replicate (BLOCK_SIZE - length c) 0"

text \<open>
  The on-disk states the engine can produce: from a state without files (and any
  directories), by open, write and truncate with any arguments. Read, size and close
  return no new state.
\<close>

inductive reachable :: "fs_state \<Rightarrow> bool" where
  reachable_empty: "reachable \<lparr>files = Map.empty, dirs = ds\<rparr>"
| reachable_open: "reachable fs \<Longrightarrow> block_open fs fname = (r, bf, fs') \<Longrightarrow> reachable fs'"
| reachable_write: "reachable fs \<Longrightarrow> block_write fs bf buffer sz offset = (r, fs') \<Longrightarrow> reachable fs'"
| reachable_truncate: "reachable fs \<Longrightarrow> block_truncate fs bf sz = (r, fs') \<Longrightarrow> reachable fs'"

text \<open>
  A file name of 1004 characters in four path components: with it the path of a block
  file with a six-digit index has 1024 characters, one more than \<^verbatim>\<open>MAX_PATH_LEN\<close> allows.
\<close>

definition long_name :: string where
  "long_name = replicate 254 (CHR ''a'') @ ''/'' @ replicate 254 (CHR ''b'') @ ''/'' @
               replicate 253 (CHR ''c'') @ ''/'' @ replicate 240 (CHR ''d'')"


section \<open>Paths\<close>

lemma c_int_eq_iff: "c_int a = c_int b \<longleftrightarrow> a mod 2 ^ 32 = b mod 2 ^ 32"
  by (simp add: c_int_def signed_take_bit_eq_iff_take_bit_eq take_bit_eq_mod)

lemma c_int_id: "- (2 ^ 31) \<le> x \<Longrightarrow> x < 2 ^ 31 \<Longrightarrow> c_int x = x"
  by (simp add: c_int_def signed_take_bit_int_eq_self)

lemma digit_cases:
  "d < 10 \<Longrightarrow> d = 0 \<or> d = 1 \<or> d = 2 \<or> d = 3 \<or> d = 4 \<or> d = 5 \<or> d = 6 \<or> d = 7 \<or> d = 8 \<or> d = (9::nat)"
  by arith

lemma digit_val_digit_char: "d < 10 \<Longrightarrow> digit_val (digit_char d) = d"
  using digit_cases [of d] by (auto simp: digit_val_def digit_char_def)

lemma digit_char_not_special: "d < 10 \<Longrightarrow> digit_char d \<noteq> CHR ''/'' \<and> digit_char d \<noteq> CHR ''-''"
  using digit_cases [of d] by (auto simp: digit_char_def)

lemma str_val_snoc: "str_val (s @ [c]) = 10 * str_val s + digit_val c"
  by (simp add: str_val_def)

lemma str_val_dec_digits: "str_val (dec_digits n) = n"
proof (induction n rule: dec_digits.induct)
  case (1 n)
  show ?case
  proof (cases "n < 10")
    case True
    then show ?thesis
      by (subst dec_digits.simps) (simp add: str_val_def digit_val_digit_char)
  next
    case False
    with 1 show ?thesis
      by (subst dec_digits.simps) (simp add: str_val_snoc digit_val_digit_char)
  qed
qed

lemma foldl_zeros: "foldl (\<lambda>a c. 10 * a + digit_val c) 0 (replicate k (CHR ''0'')) = 0"
  by (induction k) (simp_all add: digit_val_def)

lemma str_val_zero_pad: "str_val (zero_pad w s) = str_val s"
  by (simp add: zero_pad_def str_val_def foldl_zeros)

lemma dec_digits_set: "c \<in> set (dec_digits n) \<Longrightarrow> c \<noteq> CHR ''/'' \<and> c \<noteq> CHR ''-''"
proof (induction n rule: dec_digits.induct)
  case (1 n)
  show ?case
  proof (cases "n < 10")
    case True
    with 1(2) show ?thesis
      by (subst (asm) dec_digits.simps) (simp add: digit_char_not_special)
  next
    case False
    with 1 show ?thesis
      by (subst (asm) (2) dec_digits.simps) (auto simp: digit_char_not_special)
  qed
qed

lemma dec_digits_nonempty: "dec_digits n \<noteq> []"
  by (subst dec_digits.simps) simp

lemma zero_pad_set: "c \<in> set (zero_pad w s) \<Longrightarrow> c = CHR ''0'' \<or> c \<in> set s"
  by (auto simp: zero_pad_def)

lemma fmt_06d_no_slash: "CHR ''/'' \<notin> set (fmt_06d i)"
  by (auto simp: fmt_06d_def dest!: zero_pad_set dec_digits_set)

lemma hd_zero_pad: "s \<noteq> [] \<Longrightarrow> hd (zero_pad w s) = CHR ''0'' \<or> hd (zero_pad w s) = hd s"
  by (cases "w - length s") (auto simp: zero_pad_def)

lemma hd_fmt_06d_nonneg: "0 \<le> i \<Longrightarrow> hd (fmt_06d i) \<noteq> CHR ''-''"
  using hd_zero_pad [OF dec_digits_nonempty, of 6 "nat i"]
    dec_digits_set [of "hd (dec_digits (nat i))" "nat i"] dec_digits_nonempty [of "nat i"]
  by (auto simp: fmt_06d_def)

lemma fmt_06d_inj: "fmt_06d i = fmt_06d j \<Longrightarrow> i = j"
proof -
  assume eq: "fmt_06d i = fmt_06d j"
  have v: "\<And>w n. str_val (zero_pad w (dec_digits n)) = n"
    by (simp add: str_val_zero_pad str_val_dec_digits)
  consider "i < 0" "j < 0" | "0 \<le> i" "0 \<le> j" | "i < 0" "0 \<le> j" | "0 \<le> i" "j < 0"
    by linarith
  then show ?thesis
  proof cases
    case 1
    with eq have "zero_pad 5 (dec_digits (nat (- i))) = zero_pad 5 (dec_digits (nat (- j)))"
      by (simp add: fmt_06d_def)
    then have "nat (- i) = nat (- j)" using v by metis
    with 1 show ?thesis by simp
  next
    case 2
    with eq have "zero_pad 6 (dec_digits (nat i)) = zero_pad 6 (dec_digits (nat j))"
      by (simp add: fmt_06d_def)
    then have "nat i = nat j" using v by metis
    with 2 show ?thesis by simp
  next
    case 3
    then have "hd (fmt_06d i) = CHR ''-''" by (simp add: fmt_06d_def)
    with hd_fmt_06d_nonneg [OF 3(2)] eq show ?thesis by simp
  next
    case 4
    then have "hd (fmt_06d j) = CHR ''-''" by (simp add: fmt_06d_def)
    with hd_fmt_06d_nonneg [OF 4(1)] eq show ?thesis by simp
  qed
qed

lemma length_dec_digits: "n < 10 ^ k \<Longrightarrow> 0 < k \<Longrightarrow> length (dec_digits n) \<le> k"
proof (induction n arbitrary: k rule: dec_digits.induct)
  case (1 n)
  show ?case
  proof (cases "n < 10")
    case True
    with 1(3) show ?thesis by (subst dec_digits.simps) simp
  next
    case False
    with 1(2) have "1 < k" by (cases k; cases "k - 1") auto
    then obtain k' where k': "k = Suc k'" "0 < k'" by (cases k) auto
    with 1(2) have "n div 10 < 10 ^ k'" by (simp add: less_mult_imp_div_less mult.commute)
    with 1(1) [OF False _ k'(2)] have "length (dec_digits (n div 10)) \<le> k'" by simp
    with False k' show ?thesis by (subst dec_digits.simps) simp
  qed
qed

lemma length_fmt_06d: "0 \<le> i \<Longrightarrow> i < 1000000 \<Longrightarrow> length (fmt_06d i) = 6"
proof -
  assume a: "0 \<le> i" "i < 1000000"
  then have "nat i < 10 ^ 6" by simp
  then have "length (dec_digits (nat i)) \<le> 6" by (rule length_dec_digits) simp
  with a show ?thesis by (simp add: fmt_06d_def zero_pad_def)
qed

lemma length_fmt_06d_ge: "6 \<le> length (fmt_06d i)"
  by (auto simp: fmt_06d_def zero_pad_def)

lemma block_file_path_inj: "block_file_path f i = block_file_path f j \<Longrightarrow> i = j"
  by (simp add: block_file_path_def fmt_06d_inj)

lemma length_block_file_path: "length (block_file_path f i) = length f + 14 + length (fmt_06d i)"
  by (simp add: block_file_path_def)

lemma get_block_path_rc: "fst (get_block_path f i) = 0 \<or> fst (get_block_path f i) = - 1"
  by (simp add: get_block_path_def Let_def snprintf_def)

lemma get_block_path_fits:
  "fst (get_block_path f i) = 0 \<longleftrightarrow> length (block_file_path f i) < MAX_PATH_LEN"
  using length_fmt_06d_ge [of i]
  by (auto simp: get_block_path_def get_block_dir_def Let_def snprintf_def block_file_path_def min_def)

lemma get_block_path_ok:
  "get_block_path f i = (0, p) \<Longrightarrow> p = block_file_path f i"
  using length_fmt_06d_ge [of i]
  by (auto simp: get_block_path_def get_block_dir_def Let_def snprintf_def block_file_path_def min_def
      split: if_splits)

lemma get_block_path_eq:
  "length (block_file_path f i) < MAX_PATH_LEN \<Longrightarrow> get_block_path f i = (0, block_file_path f i)"
  using get_block_path_fits [of f i] get_block_path_ok [of f i] by (cases "get_block_path f i") auto

lemma get_block_dir_eq: "length f + 7 < MAX_PATH_LEN \<Longrightarrow> get_block_dir f = f @ ''.blocks''"
  by (simp add: get_block_dir_def snprintf_def)

lemma parent_dir_append: "CHR ''/'' \<notin> set s \<Longrightarrow> parent_dir (d @ CHR ''/'' # s) = d"
proof -
  assume a: "CHR ''/'' \<notin> set s"
  then have "dropWhile (\<lambda>c. c \<noteq> CHR ''/'') (rev s @ CHR ''/'' # rev d) = CHR ''/'' # rev d"
    by (subst dropWhile_append2) auto
  then show ?thesis by (simp add: parent_dir_def)
qed

lemma parent_dir_block_file_path: "parent_dir (block_file_path f i) = f @ ''.blocks''"
proof -
  have "CHR ''/'' \<notin> set (''block_'' @ fmt_06d i)" using fmt_06d_no_slash [of i] by simp
  from parent_dir_append [OF this, of "f @ ''.blocks''"] show ?thesis
    by (simp add: block_file_path_def)
qed

lemma block_path_small:
  "0 \<le> i \<Longrightarrow> i < 1000000 \<Longrightarrow> length f \<le> 1003 \<Longrightarrow> get_block_path f i = (0, block_file_path f i)"
  by (rule get_block_path_eq) (simp add: length_block_file_path length_fmt_06d)

section \<open>Argument checks\<close>

text \<open>
  C5, as the code has it. With a null handle, read, write, truncate and size return \<open>-1\<close>
  (the only failure value of the engine) and leave the file system and the caller's buffer
  as they are; close returns \<open>0\<close>. Read and write with a negative size or a negative
  offset return \<open>-1\<close>, again with nothing changed, whatever the handle and the buffer.
\<close>

theorem null_handle_and_negative_arguments:
  "block_read fs None buffer sz offset = (- 1, buffer) \<and>
   block_write fs None buffer sz offset = (- 1, fs) \<and>
   block_truncate fs None sz' = (- 1, fs) \<and>
   block_file_size fs None = - 1 \<and>
   block_close fs None = (0, fs) \<and>
   (sz < 0 \<or> offset < 0 \<longrightarrow>
      block_read fs bf buffer sz offset = (- 1, buffer) \<and>
      block_write fs bf buffer sz offset = (- 1, fs))"
  by (simp add: block_read_def block_write_def block_truncate_def block_file_size_def block_close_def
      split: option.splits)

theorem null_handle_and_negative_arguments_witness:
  "((- 1 :: int) < 0 \<or> (0 :: int) < 0) \<and>
   block_read \<lparr>files = Map.empty, dirs = {}\<rparr> (Some \<lparr>filename = ''f''\<rparr>) (Some [1, 2]) (- 1) 0
     = (- 1, Some [1, 2]) \<and>
   block_write \<lparr>files = Map.empty, dirs = {}\<rparr> (Some \<lparr>filename = ''f''\<rparr>) (Some [1, 2]) (- 1) 0
     = (- 1, \<lparr>files = Map.empty, dirs = {}\<rparr>)"
  using null_handle_and_negative_arguments
    [of "\<lparr>files = Map.empty, dirs = {}\<rparr>" "Some [1, 2]" "- 1" 0 0 "Some \<lparr>filename = ''f''\<rparr>"]
  by simp

text \<open>
  C5 as stated fails for close: a null handle is accepted there and the call reports
  success.
\<close>

theorem close_null_handle_counterexample:
  "fst (block_close \<lparr>files = Map.empty, dirs = {}\<rparr> None) \<noteq> - 1"
  by (simp add: block_close_def)

section \<open>Reading\<close>

lemma sub_span_le: "sub_span sz offset \<le> sz" "sub_span sz offset \<le> BLOCK_SIZE - offset mod BLOCK_SIZE"
  by (simp_all add: sub_span_def Let_def)

lemma sub_span_pos: "0 < sz \<Longrightarrow> 0 < sub_span sz offset"
  by (simp add: sub_span_def Let_def)

lemma in_block_div:
  assumes "i < BLOCK_SIZE - offset mod BLOCK_SIZE"
  shows "(offset + i) div BLOCK_SIZE = offset div BLOCK_SIZE"
proof -
  have "(offset div 4096 * 4096 + (offset mod 4096 + i)) div 4096
          = offset div 4096 + (offset mod 4096 + i) div 4096"
    by (rule div_mult_self3) simp
  moreover have "(offset mod 4096 + i) div 4096 = 0" using assms by simp
  moreover have "offset div 4096 * 4096 + (offset mod 4096 + i) = offset + i"
    by (simp only: add.assoc [symmetric] div_mult_mod_eq)
  ultimately show ?thesis by (simp only: add_0_right)
qed

lemma in_block_mod:
  assumes "i < BLOCK_SIZE - offset mod BLOCK_SIZE"
  shows "(offset + i) mod BLOCK_SIZE = offset mod BLOCK_SIZE + i"
proof -
  have "(offset div 4096 * 4096 + (offset mod 4096 + i)) mod 4096
          = (offset mod 4096 + i) mod 4096"
    by (rule mod_mult_self3)
  moreover have "(offset mod 4096 + i) mod 4096 = offset mod 4096 + i" using assms by simp
  moreover have "offset div 4096 * 4096 + (offset mod 4096 + i) = offset + i"
    by (simp only: add.assoc [symmetric] div_mult_mod_eq)
  ultimately show ?thesis by (simp only:)
qed

lemma vbyte_in_block:
  assumes "i < sub_span sz offset"
  shows "vbyte fs f (offset + i) =
    (let c = block_bytes fs f (c_int (int (offset div BLOCK_SIZE)))
     in if offset mod BLOCK_SIZE + i < length c then c ! (offset mod BLOCK_SIZE + i) else 0)"
proof -
  from assms sub_span_le(2) [of sz offset] have i: "i < BLOCK_SIZE - offset mod BLOCK_SIZE" by simp
  show ?thesis
    by (simp only: vbyte_def in_block_div [OF i] in_block_mod [OF i])
qed

lemma nth_pad: "i < n \<Longrightarrow> (xs @ replicate (n - length xs) z) ! i = (if i < length xs then xs ! i else z)"
  by (auto simp: nth_append)

lemma memcpy_then_memset:
  "length xs \<le> n \<Longrightarrow> buf + n \<le> length buffer \<Longrightarrow>
   (if length xs < n then memset (memcpy buffer buf xs) (buf + length xs) z (n - length xs)
    else memcpy buffer buf xs)
   = take buf buffer @ (xs @ replicate (n - length xs) z) @ drop (buf + n) buffer"
  by (auto simp: memset_def memcpy_def ac_simps)

lemma map_vbyte_block:
  "map (vbyte fs f) [offset ..< offset + sub_span sz offset] =
     (let c = block_bytes fs f (c_int (int (offset div BLOCK_SIZE)));
          data = take (sub_span sz offset) (drop (offset mod BLOCK_SIZE) c)
      in data @ replicate (sub_span sz offset - length data) 0)"
proof -
  let ?c = "block_bytes fs f (c_int (int (offset div BLOCK_SIZE)))"
  let ?tr = "sub_span sz offset"
  let ?data = "take ?tr (drop (offset mod BLOCK_SIZE) ?c)"
  have "map (vbyte fs f) [offset ..< offset + ?tr] = ?data @ replicate (?tr - length ?data) 0"
  proof (rule nth_equalityI)
    show "length (map (vbyte fs f) [offset ..< offset + ?tr]) = length (?data @ replicate (?tr - length ?data) 0)"
      by simp
  next
    fix i assume "i < length (map (vbyte fs f) [offset ..< offset + ?tr])"
    then have i: "i < ?tr" by simp
    have l: "(?data @ replicate (?tr - length ?data) 0) ! i = (if i < length ?data then ?data ! i else 0)"
      using i by (rule nth_pad)
    have d: "i < length ?data \<longleftrightarrow> offset mod BLOCK_SIZE + i < length ?c"
      using i by auto
    have n: "?data ! i = ?c ! (offset mod BLOCK_SIZE + i)" if "i < length ?data"
    proof -
      from that have le: "offset mod BLOCK_SIZE \<le> length ?c" and "i < ?tr" by auto
      then show ?thesis by (simp add: nth_drop [OF le])
    qed
    have "map (vbyte fs f) [offset ..< offset + ?tr] ! i = vbyte fs f (offset + i)"
      using i by simp
    also have "\<dots> = (if offset mod BLOCK_SIZE + i < length ?c then ?c ! (offset mod BLOCK_SIZE + i) else 0)"
      using vbyte_in_block [OF i, of fs f] by (simp add: Let_def)
    also have "\<dots> = (?data @ replicate (?tr - length ?data) 0) ! i"
      using l d n by presburger
    finally show "map (vbyte fs f) [offset ..< offset + ?tr] ! i = (?data @ replicate (?tr - length ?data) 0) ! i" .
  qed
  then show ?thesis by (simp only: Let_def)
qed

lemma read_block_ok:
  assumes "read_block fs f buffer buf sz offset = Some buffer'"
    and "buf + sub_span sz offset \<le> length buffer"
  shows "buffer' = take buf buffer @ map (vbyte fs f) [offset ..< offset + sub_span sz offset]
           @ drop (buf + sub_span sz offset) buffer"
proof -
  let ?K = "c_int (int (offset div BLOCK_SIZE))"
  let ?tr = "sub_span sz offset"
  obtain rc p where gp: "get_block_path f ?K = (rc, p)" by (cases "get_block_path f ?K")
  with assms(1) have rc: "rc = 0" by (auto simp: read_block_def Let_def split: if_splits)
  with gp have p: "p = block_file_path f ?K" by (simp add: get_block_path_ok)
  show ?thesis
  proof (cases "files fs p")
    case None
    with p have "block_bytes fs f ?K = []" by (simp add: block_bytes_def)
    then have m: "map (vbyte fs f) [offset ..< offset + ?tr] = replicate ?tr 0"
      by (simp add: map_vbyte_block)
    from None gp rc assms(1) have "buffer' = memset buffer buf 0 ?tr"
      by (simp add: read_block_def Let_def fopen_rb_def)
    with m show ?thesis by (simp add: memset_def memcpy_def)
  next
    case (Some c)
    with p have bb: "block_bytes fs f ?K = c" by (simp add: block_bytes_def)
    let ?data = "take ?tr (drop (offset mod BLOCK_SIZE) c)"
    have m: "map (vbyte fs f) [offset ..< offset + ?tr] = ?data @ replicate (?tr - length ?data) 0"
      by (simp add: map_vbyte_block bb Let_def)
    have len: "length ?data \<le> ?tr" by simp
    from Some gp rc assms(1) have b': "buffer' =
        (if length ?data < ?tr
         then memset (memcpy buffer buf ?data) (buf + length ?data) 0 (?tr - length ?data)
         else memcpy buffer buf ?data)"
      by (auto simp add: read_block_def Let_def fopen_rb_def fseek_def fread_def
          simp del: length_take length_drop split: if_splits)
    also have "\<dots> = take buf buffer @ (?data @ replicate (?tr - length ?data) 0) @ drop (buf + ?tr) buffer"
      using len assms(2) by (rule memcpy_then_memset)
    finally show ?thesis by (simp only: m)
  qed
qed

lemma read_block_length:
  assumes "read_block fs f buffer buf sz offset = Some buffer'"
    and "buf + sub_span sz offset \<le> length buffer"
  shows "length buffer' = length buffer"
  using assms(2) by (simp add: read_block_ok [OF assms])

lemma read_block_succeeds:
  "fst (get_block_path f (c_int (int (offset div BLOCK_SIZE)))) = 0 \<Longrightarrow>
   read_block fs f buffer buf sz offset \<noteq> None"
  by (auto simp: read_block_def Let_def fseek_def split: prod.splits option.splits)


lemma read_loop_ok:
  "read_loop fs f buffer buf sz offset tot = (r, buffer') \<Longrightarrow> r \<noteq> - 1 \<Longrightarrow> 0 \<le> tot \<Longrightarrow>
   buf + sz \<le> length buffer \<Longrightarrow>
   r = tot + int sz \<and>
   buffer' = take buf buffer @ map (vbyte fs f) [offset ..< offset + sz] @ drop (buf + sz) buffer"
proof (induction fs f buffer buf sz offset tot rule: read_loop.induct)
  case (1 fs f buffer buf sz offset tot)
  show ?case
  proof (cases "0 < sz")
    case False
    with 1(2) show ?thesis by (simp add: read_loop.simps)
  next
    case True
    let ?tr = "sub_span sz offset"
    from True 1(2,3) obtain b1 where rb: "read_block fs f buffer buf sz offset = Some b1"
      by (subst (asm) read_loop.simps) (auto split: option.splits)
    with True 1(2) have rl: "read_loop fs f b1 (buf + ?tr) (sz - ?tr) (offset + ?tr) (tot + int ?tr) = (r, buffer')"
      by (subst (asm) read_loop.simps) simp
    have tr: "?tr \<le> sz" by (rule sub_span_le)
    with 1(5) have fit: "buf + ?tr \<le> length buffer" by simp
    note b1 = read_block_ok [OF rb fit]
    have lenb1: "length b1 = length buffer" by (rule read_block_length [OF rb fit])
    from 1(1) [OF True rb rl 1(3)] 1(4,5) tr lenb1
    have ih: "r = tot + int ?tr + int (sz - ?tr)"
      "buffer' = take (buf + ?tr) b1 @ map (vbyte fs f) [offset + ?tr ..< offset + ?tr + (sz - ?tr)]
                   @ drop (buf + ?tr + (sz - ?tr)) b1"
      by simp_all
    from ih(1) tr have r: "r = tot + int sz" by simp
    have split: "[offset ..< offset + sz] = [offset ..< offset + ?tr] @ [offset + ?tr ..< offset + sz]"
      using tr upt_add_eq_append [of offset "offset + ?tr" "sz - ?tr"] by simp
    have t1: "take (buf + ?tr) b1 = take buf buffer @ map (vbyte fs f) [offset ..< offset + ?tr]"
      using fit by (simp add: b1)
    have t2: "drop (buf + sz) b1 = drop (buf + sz) buffer"
      using fit tr 1(5) by (simp add: b1 ac_simps)
    from ih(2) tr have "buffer' = take (buf + ?tr) b1 @ map (vbyte fs f) [offset + ?tr ..< offset + sz]
                   @ drop (buf + sz) b1" by simp
    with t1 t2 split r show ?thesis by simp
  qed
qed

lemma read_loop_succeeds:
  "(\<forall>p. offset \<le> p \<and> p < offset + sz \<longrightarrow> fst (get_block_path f (c_int (int (p div BLOCK_SIZE)))) = 0) \<Longrightarrow>
   fst (read_loop fs f buffer buf sz offset tot) = tot + int sz"
proof (induction fs f buffer buf sz offset tot rule: read_loop.induct)
  case (1 fs f buffer buf sz offset tot)
  show ?case
  proof (cases "0 < sz")
    case False
    then show ?thesis by (simp add: read_loop.simps)
  next
    case True
    let ?tr = "sub_span sz offset"
    have tr: "?tr \<le> sz" "0 < ?tr" using True by (simp_all add: sub_span_le sub_span_pos)
    from 1(2) True have "fst (get_block_path f (c_int (int (offset div BLOCK_SIZE)))) = 0" by simp
    then obtain b1 where rb: "read_block fs f buffer buf sz offset = Some b1"
      using read_block_succeeds by blast
    have "fst (read_loop fs f b1 (buf + ?tr) (sz - ?tr) (offset + ?tr) (tot + int ?tr))
            = tot + int ?tr + int (sz - ?tr)"
      using 1(2) tr by (intro 1(1) [OF True rb]) auto
    with True rb tr show ?thesis by (subst read_loop.simps) simp
  qed
qed

section \<open>Size\<close>

lemma block_end_nonneg: "0 \<le> k \<Longrightarrow> 0 \<le> block_end fs f k"
  by (simp add: block_end_def split: option.splits)

lemma size_loop_step:
  assumes "0 \<le> n" "n < 10000" "length f \<le> 1003" "0 \<le> m"
  shows "size_loop fs f n m = size_loop fs f (n + 1) (max m (block_end fs f n))"
proof -
  from assms have gp: "get_block_path f n = (0, block_file_path f n)"
    by (intro block_path_small) simp_all
  show ?thesis
  proof (cases "stat fs (block_file_path f n)")
    case None
    with assms(4) have "max m (block_end fs f n) = m" by (simp add: block_end_def)
    with None gp assms(2) show ?thesis by (subst size_loop.simps) simp
  next
    case (Some s)
    then have "block_end fs f n = n * 4096 + int (min s 4096)" by (simp add: block_end_def)
    then have "max m (block_end fs f n) =
        (if (if s < 4096 then n * 4096 + int s else (n + 1) * 4096) > m
         then (if s < 4096 then n * 4096 + int s else (n + 1) * 4096) else m)"
      by (simp add: min_def max_def algebra_simps)
    with Some gp assms(2) show ?thesis by (subst size_loop.simps) (simp add: Let_def)
  qed
qed

lemma Max_insert_insert:
  "finite S \<Longrightarrow> Max (insert a (insert b S)) = Max (insert (max a b) S)"
  by (cases "S = {}") (simp_all add: max.assoc)

lemma size_loop_eq:
  "0 \<le> n \<Longrightarrow> n \<le> 10000 \<Longrightarrow> 0 \<le> m \<Longrightarrow> length f \<le> 1003 \<Longrightarrow>
   size_loop fs f n m = Max (insert m (block_end fs f ` {n ..< 10000}))"
proof (induction fs f n m rule: size_loop.induct)
  case (1 fs f n m)
  note n0 = "1.prems"(1) and n1 = "1.prems"(2) and m0 = "1.prems"(3) and len = "1.prems"(4)
  show ?case
  proof (cases "n < 10000")
    case False
    with n1 have "n = 10000" by simp
    then show ?thesis by (subst size_loop.simps) simp
  next
    case True
    let ?m' = "max m (block_end fs f n)"
    have step: "size_loop fs f n m = size_loop fs f (n + 1) ?m'"
      using n0 True len m0 by (rule size_loop_step)
    have m': "0 \<le> ?m'" using m0 by simp
    have gp: "get_block_path f n = (0, block_file_path f n)"
      using n0 len True by (intro block_path_small) simp_all
    have ih: "size_loop fs f (n + 1) ?m' = Max (insert ?m' (block_end fs f ` {n + 1 ..< 10000}))"
    proof (cases "stat fs (block_file_path f n)")
      case None
      then have e: "?m' = m" using m0 by (simp add: block_end_def)
      from "1.IH"(1) [OF True gp [symmetric] _ None] True n0 m0 len
      have "size_loop fs f (n + 1) m = Max (insert m (block_end fs f ` {n + 1 ..< 10000}))" by simp
      with e show ?thesis by simp
    next
      case (Some s)
      let ?be = "(n + 1) * int BLOCK_SIZE"
      let ?be2 = "if s < BLOCK_SIZE then n * int BLOCK_SIZE + int s else ?be"
      have e: "?m' = (if ?be2 > m then ?be2 else m)"
        using Some by (simp add: block_end_def min_def max_def algebra_simps)
      from "1.IH"(2) [OF True gp [symmetric] _ Some refl refl] True n0 m0 len m' e
      have "size_loop fs f (n + 1) (if ?be2 > m then ?be2 else m)
              = Max (insert (if ?be2 > m then ?be2 else m) (block_end fs f ` {n + 1 ..< 10000}))"
        by simp
      with e show ?thesis by simp
    qed
    have "{n ..< 10000} = insert n {n + 1 ..< 10000}" using True by auto
    then have "Max (insert m (block_end fs f ` {n ..< 10000}))
               = Max (insert m (insert (block_end fs f n) (block_end fs f ` {n + 1 ..< 10000})))"
      by simp
    also have "\<dots> = Max (insert ?m' (block_end fs f ` {n + 1 ..< 10000}))"
      by (rule Max_insert_insert) simp
    finally show ?thesis using step ih by simp
  qed
qed

lemma block_file_size_eq:
  "length (filename h) \<le> 1003 \<Longrightarrow>
   block_file_size fs (Some h) = Max (insert 0 (block_end fs (filename h) ` {0 ..< 10000}))"
  by (simp add: block_file_size_def size_loop_eq)

lemma size_loop_path_too_long:
  "0 \<le> n \<Longrightarrow> n < 10000 \<Longrightarrow> 1003 < length f \<Longrightarrow> size_loop fs f n m = - 1"
proof -
  assume a: "0 \<le> n" "n < 10000" "1003 < length f"
  then have "\<not> length (block_file_path f n) < MAX_PATH_LEN"
    by (simp add: length_block_file_path length_fmt_06d)
  then have "fst (get_block_path f n) \<noteq> 0" by (simp add: get_block_path_fits)
  with a(2) show ?thesis by (subst size_loop.simps) (auto split: prod.splits)
qed

section \<open>A virtual file without block files\<close>

lemma no_blocks_files: "no_blocks fs f \<Longrightarrow> files fs (block_file_path f k) = None"
  by (auto simp: no_blocks_def stat_def split: option.splits)

lemma no_blocks_vbyte: "no_blocks fs f \<Longrightarrow> vbyte fs f p = 0"
  by (simp add: vbyte_def block_bytes_def no_blocks_files)

lemma no_blocks_size:
  assumes "no_blocks fs (filename h)"
  shows "block_file_size fs (Some h) = (if length (filename h) \<le> 1003 then 0 else - 1)"
proof (cases "length (filename h) \<le> 1003")
  case True
  from assms have "\<And>k. block_end fs (filename h) k = 0"
    by (simp add: block_end_def no_blocks_def)
  moreover have "{0 ..< 10000 :: int} \<noteq> {}" by simp
  ultimately have "block_end fs (filename h) ` {0 ..< 10000} = {0}" by (simp add: image_constant_conv)
  with True show ?thesis by (simp add: block_file_size_eq)
next
  case False
  then show ?thesis by (simp add: block_file_size_def size_loop_path_too_long)
qed


text \<open>Evaluation on concrete inputs.\<close>

lemma no_blocks_example: "no_blocks \<lparr>files = Map.empty, dirs = {''f.blocks''}\<rparr> ''f''"
  by (simp add: no_blocks_def stat_def block_file_path_def)

lemma replicate_numeral: "replicate (numeral n) x = x # replicate (pred_numeral n) x"
  by (simp add: numeral_eq_Suc)

lemma dec_digits_digit: "n < 10 \<Longrightarrow> dec_digits n = [digit_char n]"
  by (subst dec_digits.simps) simp

lemma fmt_06d_0: "fmt_06d 0 = ''000000''"
  by (simp add: fmt_06d_def zero_pad_def digit_char_def replicate_numeral dec_digits_digit)

lemma fmt_06d_1: "fmt_06d 1 = ''000001''"
  by (simp add: fmt_06d_def zero_pad_def digit_char_def replicate_numeral dec_digits_digit)

lemma get_block_path_f_0: "get_block_path ''f'' 0 = (0, ''f.blocks/block_000000'')"
  by (simp add: get_block_path_def get_block_dir_def snprintf_def fmt_06d_0)

lemma get_block_path_f_1: "get_block_path ''f'' 1 = (0, ''f.blocks/block_000001'')"
  by (simp add: get_block_path_def get_block_dir_def snprintf_def fmt_06d_1)

lemma block_file_path_f_0: "block_file_path ''f'' 0 = ''f.blocks/block_000000''"
  by (simp add: block_file_path_def fmt_06d_0)

section \<open>Writing one block\<close>

lemma length_zero_padded: "length (zero_padded c) = BLOCK_SIZE"
  by (simp add: zero_padded_def)

lemma nth_zero_padded: "r < BLOCK_SIZE \<Longrightarrow> zero_padded c ! r = (if r < length c then c ! r else 0)"
  by (auto simp: zero_padded_def nth_append)

lemma zero_padded_Nil: "zero_padded [] = replicate BLOCK_SIZE 0"
  by (simp add: zero_padded_def)

lemma vbyte_zero_padded:
  "vbyte fs f q = zero_padded (block_bytes fs f (c_int (int (q div BLOCK_SIZE)))) ! (q mod BLOCK_SIZE)"
  by (simp add: vbyte_def Let_def nth_zero_padded)

lemma length_memcpy: "i + length src \<le> length dst \<Longrightarrow> length (memcpy dst i src) = length dst"
  by (simp add: memcpy_def)

lemma nth_memcpy:
  "i + length src \<le> length dst \<Longrightarrow> r < length dst \<Longrightarrow>
   memcpy dst i src ! r = (if i \<le> r \<and> r < i + length src then src ! (r - i) else dst ! r)"
  by (auto simp: memcpy_def nth_append)

lemma loaded_block:
  "(case fopen_rb fs p of
      Some existing \<Rightarrow> memcpy (memset (replicate BLOCK_SIZE 0) 0 0 BLOCK_SIZE) 0 (fread BLOCK_SIZE existing)
    | None \<Rightarrow> memset (replicate BLOCK_SIZE 0) 0 0 BLOCK_SIZE)
   = zero_padded (case files fs p of None \<Rightarrow> [] | Some c \<Rightarrow> c)"
  by (auto simp: fopen_rb_def fread_def memset_def memcpy_def zero_padded_def min_def
      split: option.splits)

lemma write_block_frame:
  assumes "write_block fs f buffer buf sz offset = (ok, fs')"
  shows "dirs fs' = dirs fs"
    and "p \<noteq> block_file_path f (c_int (int (offset div BLOCK_SIZE))) \<Longrightarrow> files fs' p = files fs p"
proof -
  let ?K = "c_int (int (offset div BLOCK_SIZE))"
  obtain rc bp where gp: "get_block_path f ?K = (rc, bp)" by (cases "get_block_path f ?K")
  have "dirs fs' = dirs fs \<and> (p \<noteq> block_file_path f ?K \<longrightarrow> files fs' p = files fs p)"
  proof (cases "rc = 0")
    case False
    with assms gp show ?thesis by (simp add: write_block_def Let_def)
  next
    case True
    with gp have bp: "bp = block_file_path f ?K" by (simp add: get_block_path_ok)
    from assms gp True show ?thesis
      unfolding bp
      by (auto simp: write_block_def Let_def fopen_wb_def fwrite_def split: if_splits option.splits)
  qed
  then show "dirs fs' = dirs fs"
    and "p \<noteq> block_file_path f ?K \<Longrightarrow> files fs' p = files fs p" by simp_all
qed

lemma write_block_ok:
  assumes "write_block fs f buffer buf sz offset = (True, fs')"
    and "buf + sub_span sz offset \<le> length buffer"
  shows "fs' = fs\<lparr>files := (files fs)(block_file_path f (c_int (int (offset div BLOCK_SIZE))) \<mapsto>
            memcpy (zero_padded (block_bytes fs f (c_int (int (offset div BLOCK_SIZE)))))
              (offset mod BLOCK_SIZE) (take (sub_span sz offset) (drop buf buffer)))\<rparr>"
proof -
  let ?K = "c_int (int (offset div BLOCK_SIZE))"
  let ?tw = "sub_span sz offset"
  let ?src = "take ?tw (drop buf buffer)"
  let ?old = "zero_padded (block_bytes fs f ?K)"
  obtain rc bp where gp: "get_block_path f ?K = (rc, bp)" by (cases "get_block_path f ?K")
  with assms(1) have rc: "rc = 0" by (auto simp: write_block_def Let_def split: if_splits)
  with gp have bp: "bp = block_file_path f ?K" by (simp add: get_block_path_ok)
  have lsrc: "length ?src = ?tw" using assms(2) by simp
  have tw: "offset mod BLOCK_SIZE + ?tw \<le> BLOCK_SIZE" using sub_span_le(2) [of sz offset] by simp
  have ld: "(case fopen_rb fs bp of
      Some existing \<Rightarrow> memcpy (memset (replicate BLOCK_SIZE 0) 0 0 BLOCK_SIZE) 0 (fread BLOCK_SIZE existing)
    | None \<Rightarrow> memset (replicate BLOCK_SIZE 0) 0 0 BLOCK_SIZE) = ?old"
    by (simp only: loaded_block block_bytes_def bp)
  have lnew: "length (memcpy ?old (offset mod BLOCK_SIZE) ?src) = BLOCK_SIZE"
    using tw lsrc by (simp add: length_memcpy length_zero_padded)
  show ?thesis
  proof (cases "offset mod BLOCK_SIZE \<noteq> 0 \<or> ?tw \<noteq> BLOCK_SIZE")
    case True
    from assms(1) gp rc True obtain fs1 where
      o: "fopen_wb fs bp = Some fs1" and
      w: "fwrite fs1 bp (memcpy ?old (offset mod BLOCK_SIZE) ?src) BLOCK_SIZE = (BLOCK_SIZE, fs')"
      unfolding write_block_def Let_def gp prod.case ld
      by (auto split: option.splits prod.splits if_splits)
    from o have fs1: "fs1 = fs\<lparr>files := (files fs)(bp \<mapsto> [])\<rparr>"
      by (auto simp: fopen_wb_def split: if_splits)
    from w lnew show ?thesis unfolding fs1 bp by (auto simp: fwrite_def)
  next
    case False
    then have full: "offset mod BLOCK_SIZE = 0" "?tw = BLOCK_SIZE" by simp_all
    from assms(1) gp rc False obtain fs1 where
      o: "fopen_wb fs bp = Some fs1" and
      w: "fwrite fs1 bp ?src ?tw = (?tw, fs')"
      unfolding write_block_def Let_def gp prod.case
      by (auto split: option.splits prod.splits if_splits)
    from o have fs1: "fs1 = fs\<lparr>files := (files fs)(bp \<mapsto> [])\<rparr>"
      by (auto simp: fopen_wb_def split: if_splits)
    have "memcpy ?old (offset mod BLOCK_SIZE) ?src = ?src"
      using lsrc full by (simp add: memcpy_def length_zero_padded)
    with w lsrc show ?thesis unfolding fs1 bp by (auto simp: fwrite_def)
  qed
qed

lemma write_block_succeeds:
  assumes "fst (get_block_path f (c_int (int (offset div BLOCK_SIZE)))) = 0"
    and "block_file_path f (c_int (int (offset div BLOCK_SIZE))) \<notin> dirs fs"
    and "f @ ''.blocks'' \<in> dirs fs"
    and "buf + sub_span sz offset \<le> length buffer"
  shows "fst (write_block fs f buffer buf sz offset)"
proof -
  let ?K = "c_int (int (offset div BLOCK_SIZE))"
  let ?tw = "sub_span sz offset"
  from assms(1) have gp: "get_block_path f ?K = (0, block_file_path f ?K)"
    by (simp add: get_block_path_fits get_block_path_eq)
  have o: "fopen_wb fs (block_file_path f ?K) = Some (fs\<lparr>files := (files fs)(block_file_path f ?K \<mapsto> [])\<rparr>)"
    using assms(2,3) by (simp add: fopen_wb_def parent_dir_block_file_path)
  have lsrc: "length (take ?tw (drop buf buffer)) = ?tw" using assms(4) by simp
  have tw: "offset mod BLOCK_SIZE + ?tw \<le> BLOCK_SIZE" using sub_span_le(2) [of sz offset] by simp
  have lnew: "\<And>c. length (memcpy (zero_padded c) (offset mod BLOCK_SIZE) (take ?tw (drop buf buffer))) = BLOCK_SIZE"
    using tw lsrc by (simp add: length_memcpy length_zero_padded)
  show ?thesis
  proof (cases "offset mod BLOCK_SIZE \<noteq> 0 \<or> ?tw \<noteq> BLOCK_SIZE")
    case True
    then show ?thesis
      unfolding write_block_def Let_def gp prod.case loaded_block
      using o lnew by (simp add: fwrite_def del: length_take length_drop)
  next
    case False
    then show ?thesis
      unfolding write_block_def Let_def gp prod.case
      using o lsrc by (simp add: fwrite_def del: length_take length_drop)
  qed
qed

lemma write_block_bounded:
  assumes "write_block fs f buffer buf sz offset = (ok, fs')"
    and "\<forall>p c. files fs p = Some c \<longrightarrow> length c \<le> BLOCK_SIZE"
  shows "\<forall>p c. files fs' p = Some c \<longrightarrow> length c \<le> BLOCK_SIZE"
proof -
  let ?K = "c_int (int (offset div BLOCK_SIZE))"
  let ?tw = "sub_span sz offset"
  obtain rc bp where gp: "get_block_path f ?K = (rc, bp)" by (cases "get_block_path f ?K")
  have tw: "offset mod BLOCK_SIZE + ?tw \<le> BLOCK_SIZE" using sub_span_le(2) [of sz offset] by simp
  then have tw2: "?tw \<le> BLOCK_SIZE" by simp
  from assms show ?thesis
    unfolding write_block_def Let_def gp prod.case
    using tw2
    by (auto simp: fopen_wb_def fwrite_def split: if_splits option.splits)
qed

lemma write_block_vbyte:
  assumes "write_block fs f buffer buf sz offset = (True, fs')"
    and "buf + sub_span sz offset \<le> length buffer"
  shows "vbyte fs' f q =
    (if c_int (int (q div BLOCK_SIZE)) = c_int (int (offset div BLOCK_SIZE)) \<and>
        offset mod BLOCK_SIZE \<le> q mod BLOCK_SIZE \<and>
        q mod BLOCK_SIZE < offset mod BLOCK_SIZE + sub_span sz offset
     then buffer ! (buf + (q mod BLOCK_SIZE - offset mod BLOCK_SIZE))
     else vbyte fs f q)"
proof -
  let ?K = "c_int (int (offset div BLOCK_SIZE))"
  let ?Q = "c_int (int (q div BLOCK_SIZE))"
  let ?tw = "sub_span sz offset"
  let ?src = "take ?tw (drop buf buffer)"
  let ?old = "zero_padded (block_bytes fs f ?K)"
  let ?nb = "memcpy ?old (offset mod BLOCK_SIZE) ?src"
  note fs' = write_block_ok [OF assms]
  have lsrc: "length ?src = ?tw" using assms(2) by simp
  have tw: "offset mod BLOCK_SIZE + ?tw \<le> BLOCK_SIZE" using sub_span_le(2) [of sz offset] by simp
  have lnb: "length ?nb = BLOCK_SIZE"
    using tw lsrc by (simp add: length_memcpy length_zero_padded)
  have r: "q mod BLOCK_SIZE < BLOCK_SIZE" by simp
  show ?thesis
  proof (cases "?Q = ?K")
    case False
    then have "block_file_path f ?Q \<noteq> block_file_path f ?K" using block_file_path_inj by blast
    then have "block_bytes fs' f ?Q = block_bytes fs f ?Q" by (simp add: fs' block_bytes_def)
    with False show ?thesis by (simp add: vbyte_zero_padded)
  next
    case True
    have "block_bytes fs' f ?Q = ?nb" by (simp add: fs' block_bytes_def True)
    then have "vbyte fs' f q = zero_padded ?nb ! (q mod BLOCK_SIZE)" by (simp add: vbyte_zero_padded)
    also have "\<dots> = ?nb ! (q mod BLOCK_SIZE)" using lnb r by (simp add: nth_zero_padded)
    also have "\<dots> = (if offset mod BLOCK_SIZE \<le> q mod BLOCK_SIZE \<and> q mod BLOCK_SIZE < offset mod BLOCK_SIZE + ?tw
                      then ?src ! (q mod BLOCK_SIZE - offset mod BLOCK_SIZE) else ?old ! (q mod BLOCK_SIZE))"
      using tw lsrc r by (subst nth_memcpy) (simp_all add: length_zero_padded del: length_take length_drop)
    also have "\<dots> = (if offset mod BLOCK_SIZE \<le> q mod BLOCK_SIZE \<and> q mod BLOCK_SIZE < offset mod BLOCK_SIZE + ?tw
                      then buffer ! (buf + (q mod BLOCK_SIZE - offset mod BLOCK_SIZE)) else vbyte fs f q)"
      using assms(2) by (auto simp: vbyte_zero_padded True)
    finally show ?thesis using True by simp
  qed
qed

lemma chunk_same_cell:
  assumes "c_int (int (q div BLOCK_SIZE)) = c_int (int (offset div BLOCK_SIZE))"
    and "offset mod BLOCK_SIZE \<le> q mod BLOCK_SIZE"
    and "q mod BLOCK_SIZE < offset mod BLOCK_SIZE + sub_span sz offset"
  shows "\<exists>p. offset \<le> p \<and> p < offset + sub_span sz offset \<and> same_cell q p"
proof -
  let ?i = "q mod BLOCK_SIZE - offset mod BLOCK_SIZE"
  have i: "?i < BLOCK_SIZE - offset mod BLOCK_SIZE" using assms(2) by simp
  have "same_cell q (offset + ?i)"
    using assms(1,2) by (simp only: same_cell_def in_block_div [OF i] in_block_mod [OF i]) simp
  moreover have "offset + ?i < offset + sub_span sz offset" using assms(2,3) by simp
  ultimately show ?thesis by (intro exI [of _ "offset + ?i"]) simp
qed

lemma no_alias:
  assumes "p div BLOCK_SIZE < p' div BLOCK_SIZE" and "p' < p + 2 ^ 31"
  shows "\<not> same_cell p p'"
proof
  assume "same_cell p p'"
  then have "c_int (int (p div BLOCK_SIZE)) = c_int (int (p' div BLOCK_SIZE))" by (simp add: same_cell_def)
  then have m: "int (p div BLOCK_SIZE) mod 2 ^ 32 = int (p' div BLOCK_SIZE) mod 2 ^ 32"
    by (simp add: c_int_eq_iff)
  have "p' div BLOCK_SIZE \<le> (p + 2 ^ 31) div BLOCK_SIZE" using assms(2) by (simp add: div_le_mono)
  also have "\<dots> = p div BLOCK_SIZE + 2 ^ 19" by simp
  finally have d: "p' div BLOCK_SIZE - p div BLOCK_SIZE \<le> 2 ^ 19" by simp
  from m [symmetric] have "(int (p' div BLOCK_SIZE) - int (p div BLOCK_SIZE)) mod 2 ^ 32 = 0"
    by (simp add: mod_eq_dvd_iff dvd_eq_mod_eq_0)
  moreover have "0 < int (p' div BLOCK_SIZE) - int (p div BLOCK_SIZE)" using assms(1) by simp
  moreover have "int (p' div BLOCK_SIZE) - int (p div BLOCK_SIZE) < 2 ^ 32" using d assms(1) by simp
  ultimately show False by simp
qed

section \<open>The write loop\<close>

lemma next_block_start:
  "offset + (BLOCK_SIZE - offset mod BLOCK_SIZE) = (offset div BLOCK_SIZE + 1) * BLOCK_SIZE"
proof -
  have a: "offset div 4096 * 4096 + offset mod 4096 = offset" by (rule div_mult_mod_eq)
  have b: "offset mod 4096 < 4096" by simp
  have "(offset div 4096 + 1) * 4096 = offset div 4096 * 4096 + 4096" by (simp add: algebra_simps)
  with a b show ?thesis by linarith
qed

lemma write_loop_step:
  assumes "0 < sz"
  shows "write_loop fs f buffer buf sz offset tot =
    (case write_block fs f buffer buf sz offset of
       (ok, fs1) \<Rightarrow>
         if \<not> ok then (- 1, fs1)
         else write_loop fs1 f buffer (buf + sub_span sz offset) (sz - sub_span sz offset)
                (offset + sub_span sz offset) (tot + int (sub_span sz offset)))"
  using assms by (subst write_loop.simps) simp

lemma write_loop_result:
  "write_loop fs f buffer buf sz offset tot = (r, fs') \<Longrightarrow> r = - 1 \<or> r = tot + int sz"
proof (induction fs f buffer buf sz offset tot rule: write_loop.induct)
  case (1 fs f buffer buf sz offset tot)
  show ?case
  proof (cases "0 < sz")
    case False
    with "1.prems" show ?thesis by (simp add: write_loop.simps)
  next
    case True
    obtain ok fs1 where wb: "write_block fs f buffer buf sz offset = (ok, fs1)"
      by (cases "write_block fs f buffer buf sz offset")
    show ?thesis
    proof (cases ok)
      case False
      with "1.prems" wb True show ?thesis by (simp add: write_loop_step)
    next
      case ok: True
      from "1.prems" wb True ok
      have "write_loop fs1 f buffer (buf + sub_span sz offset) (sz - sub_span sz offset)
                (offset + sub_span sz offset) (tot + int (sub_span sz offset)) = (r, fs')"
        by (simp add: write_loop_step)
      from "1.IH" [OF True wb [symmetric] _ this] ok sub_span_le(1) [of sz offset]
      show ?thesis by auto
    qed
  qed
qed

lemma write_loop_frame_files:
  "write_loop fs f buffer buf sz offset tot = (r, fs') \<Longrightarrow>
   dirs fs' = dirs fs \<and>
   (\<forall>P. (\<forall>p. offset \<le> p \<and> p < offset + sz \<longrightarrow> P \<noteq> block_file_path f (c_int (int (p div BLOCK_SIZE))))
        \<longrightarrow> files fs' P = files fs P)"
proof (induction fs f buffer buf sz offset tot rule: write_loop.induct)
  case (1 fs f buffer buf sz offset tot)
  show ?case
  proof (cases "0 < sz")
    case False
    with "1.prems" show ?thesis by (simp add: write_loop.simps)
  next
    case True
    let ?tw = "sub_span sz offset"
    have tw: "0 < ?tw" "?tw \<le> sz" using True by (simp_all add: sub_span_pos sub_span_le)
    obtain ok fs1 where wb: "write_block fs f buffer buf sz offset = (ok, fs1)"
      by (cases "write_block fs f buffer buf sz offset")
    note fr = write_block_frame [OF wb]
    show ?thesis
    proof (cases ok)
      case False
      with "1.prems" wb True have "fs' = fs1" by (simp add: write_loop_step)
      with fr tw show ?thesis by auto
    next
      case ok: True
      from "1.prems" wb True ok
      have "write_loop fs1 f buffer (buf + ?tw) (sz - ?tw) (offset + ?tw) (tot + int ?tw) = (r, fs')"
        by (simp add: write_loop_step)
      from "1.IH" [OF True wb [symmetric] _ this] ok
      have ih: "dirs fs' = dirs fs1"
        "\<And>P. (\<forall>p. offset + ?tw \<le> p \<and> p < offset + ?tw + (sz - ?tw) \<longrightarrow>
                 P \<noteq> block_file_path f (c_int (int (p div BLOCK_SIZE)))) \<Longrightarrow> files fs' P = files fs1 P"
        by auto
      have "files fs' P = files fs P"
        if P: "\<forall>p. offset \<le> p \<and> p < offset + sz \<longrightarrow> P \<noteq> block_file_path f (c_int (int (p div BLOCK_SIZE)))"
        for P
      proof -
        from P tw have "files fs' P = files fs1 P" by (intro ih(2)) auto
        moreover from P tw have "P \<noteq> block_file_path f (c_int (int (offset div BLOCK_SIZE)))" by auto
        ultimately show ?thesis using fr(2) by simp
      qed
      with ih(1) fr(1) show ?thesis by simp
    qed
  qed
qed

lemma write_loop_bounded:
  "write_loop fs f buffer buf sz offset tot = (r, fs') \<Longrightarrow>
   \<forall>p c. files fs p = Some c \<longrightarrow> length c \<le> BLOCK_SIZE \<Longrightarrow>
   \<forall>p c. files fs' p = Some c \<longrightarrow> length c \<le> BLOCK_SIZE"
proof (induction fs f buffer buf sz offset tot rule: write_loop.induct)
  case (1 fs f buffer buf sz offset tot)
  show ?case
  proof (cases "0 < sz")
    case False
    with "1.prems" show ?thesis by (simp add: write_loop.simps)
  next
    case True
    obtain ok fs1 where wb: "write_block fs f buffer buf sz offset = (ok, fs1)"
      by (cases "write_block fs f buffer buf sz offset")
    note b1 = write_block_bounded [OF wb "1.prems"(2)]
    show ?thesis
    proof (cases ok)
      case False
      with "1.prems"(1) wb True have "fs' = fs1" by (simp add: write_loop_step)
      with b1 show ?thesis by simp
    next
      case ok: True
      from "1.prems"(1) wb True ok
      have "write_loop fs1 f buffer (buf + sub_span sz offset) (sz - sub_span sz offset)
                (offset + sub_span sz offset) (tot + int (sub_span sz offset)) = (r, fs')"
        by (simp add: write_loop_step)
      from "1.IH" [OF True wb [symmetric] _ this b1] ok show ?thesis by simp
    qed
  qed
qed

lemma write_loop_ok_step:
  assumes "write_loop fs f buffer buf sz offset tot = (r, fs')" and "r \<noteq> - 1" and "0 < sz"
  obtains fs1 where "write_block fs f buffer buf sz offset = (True, fs1)"
    and "write_loop fs1 f buffer (buf + sub_span sz offset) (sz - sub_span sz offset)
                (offset + sub_span sz offset) (tot + int (sub_span sz offset)) = (r, fs')"
proof -
  obtain ok fs1 where wb: "write_block fs f buffer buf sz offset = (ok, fs1)"
    by (cases "write_block fs f buffer buf sz offset")
  with assms have ok by (auto simp: write_loop_step split: if_splits)
  with wb assms that show ?thesis by (simp add: write_loop_step)
qed

lemma write_loop_frame:
  "write_loop fs f buffer buf sz offset tot = (r, fs') \<Longrightarrow> r \<noteq> - 1 \<Longrightarrow>
   buf + sz \<le> length buffer \<Longrightarrow>
   \<forall>p. offset \<le> p \<and> p < offset + sz \<longrightarrow> \<not> same_cell q p \<Longrightarrow>
   vbyte fs' f q = vbyte fs f q"
proof (induction fs f buffer buf sz offset tot rule: write_loop.induct)
  case (1 fs f buffer buf sz offset tot)
  show ?case
  proof (cases "0 < sz")
    case False
    with "1.prems" show ?thesis by (simp add: write_loop.simps)
  next
    case True
    let ?tw = "sub_span sz offset"
    have tw: "0 < ?tw" "?tw \<le> sz" using True by (simp_all add: sub_span_pos sub_span_le)
    from "1.prems"(1,2) True obtain fs1 where
      wb: "write_block fs f buffer buf sz offset = (True, fs1)" and
      wl: "write_loop fs1 f buffer (buf + ?tw) (sz - ?tw) (offset + ?tw) (tot + int ?tw) = (r, fs')"
      by (rule write_loop_ok_step)
    have fit: "buf + ?tw \<le> length buffer" using tw "1.prems"(3) by simp
    have "\<not> (c_int (int (q div BLOCK_SIZE)) = c_int (int (offset div BLOCK_SIZE)) \<and>
        offset mod BLOCK_SIZE \<le> q mod BLOCK_SIZE \<and>
        q mod BLOCK_SIZE < offset mod BLOCK_SIZE + ?tw)"
      using chunk_same_cell [of q offset sz] "1.prems"(4) tw by fastforce
    then have s1: "vbyte fs1 f q = vbyte fs f q" by (auto simp: write_block_vbyte [OF wb fit])
    have "vbyte fs' f q = vbyte fs1 f q"
      using "1.prems"(2,3,4) tw by (intro "1.IH" [OF True wb [symmetric] _ wl]) auto
    with s1 show ?thesis by simp
  qed
qed

lemma write_loop_update:
  "write_loop fs f buffer buf sz offset tot = (r, fs') \<Longrightarrow> r \<noteq> - 1 \<Longrightarrow>
   buf + sz \<le> length buffer \<Longrightarrow> sz < 2 ^ 31 \<Longrightarrow>
   offset \<le> p \<Longrightarrow> p < offset + sz \<Longrightarrow>
   vbyte fs' f p = buffer ! (buf + (p - offset))"
proof (induction fs f buffer buf sz offset tot rule: write_loop.induct)
  case (1 fs f buffer buf sz offset tot)
  from "1.prems"(5,6) have True: "0 < sz" by simp
  let ?tw = "sub_span sz offset"
  have tw: "0 < ?tw" "?tw \<le> sz" "?tw \<le> BLOCK_SIZE - offset mod BLOCK_SIZE"
    using True by (simp_all add: sub_span_pos sub_span_le)
  from "1.prems"(1,2) True obtain fs1 where
    wb: "write_block fs f buffer buf sz offset = (True, fs1)" and
    wl: "write_loop fs1 f buffer (buf + ?tw) (sz - ?tw) (offset + ?tw) (tot + int ?tw) = (r, fs')"
    by (rule write_loop_ok_step)
  have fit: "buf + ?tw \<le> length buffer" using tw "1.prems"(3) by simp
  show ?case
  proof (cases "p < offset + ?tw")
    case False
    then have "vbyte fs' f p = buffer ! (buf + ?tw + (p - (offset + ?tw)))"
      using "1.prems"(2,3,4,6) tw by (intro "1.IH" [OF True wb [symmetric] _ wl]) auto
    with False show ?thesis by (simp add: ac_simps)
  next
    case inside: True
    define i where "i = p - offset"
    with "1.prems"(5) inside have p: "p = offset + i" and i: "i < ?tw" by simp_all
    from i tw(3) have ib: "i < BLOCK_SIZE - offset mod BLOCK_SIZE" by simp
    have pd: "p div BLOCK_SIZE = offset div BLOCK_SIZE" and pm: "p mod BLOCK_SIZE = offset mod BLOCK_SIZE + i"
      unfolding p using ib by (rule in_block_div, rule in_block_mod)
    have s1: "vbyte fs1 f p = buffer ! (buf + i)"
      using i by (simp add: write_block_vbyte [OF wb fit] pd pm)
    have "\<not> same_cell p p'" if p': "offset + ?tw \<le> p'" "p' < offset + ?tw + (sz - ?tw)" for p'
    proof (rule no_alias)
      from p' tw(2) have lt: "p' < offset + sz" by simp
      with "1.prems"(4,5) show "p' < p + 2 ^ 31" by simp
      from p'(1) lt tw(2) have full: "?tw = BLOCK_SIZE - offset mod BLOCK_SIZE"
        by (simp add: sub_span_def Let_def split: if_splits)
      then have "offset + ?tw = (offset div BLOCK_SIZE + 1) * BLOCK_SIZE"
        by (simp only: next_block_start)
      with p'(1) have "(offset div BLOCK_SIZE + 1) * BLOCK_SIZE \<le> p'" by simp
      then have "offset div BLOCK_SIZE + 1 \<le> p' div BLOCK_SIZE"
        by (simp add: less_eq_div_iff_mult_less_eq)
      with pd show "p div BLOCK_SIZE < p' div BLOCK_SIZE" by simp
    qed
    then have "vbyte fs' f p = vbyte fs1 f p"
      using "1.prems"(2,3) tw by (intro write_loop_frame [OF wl]) auto
    with s1 show ?thesis by (simp add: i_def)
  qed
qed

lemma write_loop_full_blocks:
  "write_loop fs f buffer buf sz offset tot = (r, fs') \<Longrightarrow> r \<noteq> - 1 \<Longrightarrow>
   buf + sz \<le> length buffer \<Longrightarrow>
   (\<exists>c. files fs P = Some c \<and> length c = BLOCK_SIZE) \<or>
   (\<exists>p. offset \<le> p \<and> p < offset + sz \<and> P = block_file_path f (c_int (int (p div BLOCK_SIZE)))) \<Longrightarrow>
   \<exists>c. files fs' P = Some c \<and> length c = BLOCK_SIZE"
proof (induction fs f buffer buf sz offset tot rule: write_loop.induct)
  case (1 fs f buffer buf sz offset tot)
  show ?case
  proof (cases "0 < sz")
    case False
    with "1.prems" show ?thesis by (auto simp: write_loop.simps)
  next
    case True
    let ?tw = "sub_span sz offset"
    let ?K = "c_int (int (offset div BLOCK_SIZE))"
    have tw: "0 < ?tw" "?tw \<le> sz" "?tw \<le> BLOCK_SIZE - offset mod BLOCK_SIZE"
      using True by (simp_all add: sub_span_pos sub_span_le)
    from "1.prems"(1,2) True obtain fs1 where
      wb: "write_block fs f buffer buf sz offset = (True, fs1)" and
      wl: "write_loop fs1 f buffer (buf + ?tw) (sz - ?tw) (offset + ?tw) (tot + int ?tw) = (r, fs')"
      by (rule write_loop_ok_step)
    have fit: "buf + ?tw \<le> length buffer" using tw "1.prems"(3) by simp
    note fs1 = write_block_ok [OF wb fit]
    have lnb: "length (memcpy (zero_padded (block_bytes fs f ?K)) (offset mod BLOCK_SIZE)
                 (take ?tw (drop buf buffer))) = BLOCK_SIZE"
      using tw fit by (simp add: length_memcpy length_zero_padded)
    have "(\<exists>c. files fs1 P = Some c \<and> length c = BLOCK_SIZE) \<or>
          (\<exists>p. offset + ?tw \<le> p \<and> p < offset + ?tw + (sz - ?tw) \<and>
               P = block_file_path f (c_int (int (p div BLOCK_SIZE))))"
    proof (cases "P = block_file_path f ?K")
      case True
      then show ?thesis using lnb by (simp add: fs1)
    next
      case False
      from "1.prems"(4) show ?thesis
      proof
        assume "\<exists>c. files fs P = Some c \<and> length c = BLOCK_SIZE"
        with False show ?thesis by (simp add: fs1)
      next
        assume "\<exists>p. offset \<le> p \<and> p < offset + sz \<and> P = block_file_path f (c_int (int (p div BLOCK_SIZE)))"
        then obtain p where p: "offset \<le> p" "p < offset + sz" "P = block_file_path f (c_int (int (p div BLOCK_SIZE)))"
          by blast
        have "\<not> p < offset + ?tw"
        proof
          assume "p < offset + ?tw"
          with p(1) tw(3) have "p - offset < BLOCK_SIZE - offset mod BLOCK_SIZE" by simp
          from in_block_div [OF this] p(1) have "p div BLOCK_SIZE = offset div BLOCK_SIZE" by simp
          with p(3) False show False by simp
        qed
        with p tw(2) show ?thesis by (intro disjI2 exI [of _ p]) simp
      qed
    qed
    with "1.prems"(2,3) tw show ?thesis by (intro "1.IH" [OF True wb [symmetric] _ wl]) auto
  qed
qed

section \<open>Round trip\<close>

lemma write_block_path_fits:
  "write_block fs f buffer buf sz offset = (True, fs') \<Longrightarrow>
   fst (get_block_path f (c_int (int (offset div BLOCK_SIZE)))) = 0"
  by (auto simp: write_block_def Let_def split: prod.splits if_splits)

lemma write_loop_paths_fit:
  "write_loop fs f buffer buf sz offset tot = (r, fs') \<Longrightarrow> r \<noteq> - 1 \<Longrightarrow>
   offset \<le> p \<Longrightarrow> p < offset + sz \<Longrightarrow>
   fst (get_block_path f (c_int (int (p div BLOCK_SIZE)))) = 0"
proof (induction fs f buffer buf sz offset tot rule: write_loop.induct)
  case (1 fs f buffer buf sz offset tot)
  from "1.prems"(3,4) have True: "0 < sz" by simp
  let ?tw = "sub_span sz offset"
  have tw: "0 < ?tw" "?tw \<le> sz" "?tw \<le> BLOCK_SIZE - offset mod BLOCK_SIZE"
    using True by (simp_all add: sub_span_pos sub_span_le)
  from "1.prems"(1,2) True obtain fs1 where
    wb: "write_block fs f buffer buf sz offset = (True, fs1)" and
    wl: "write_loop fs1 f buffer (buf + ?tw) (sz - ?tw) (offset + ?tw) (tot + int ?tw) = (r, fs')"
    by (rule write_loop_ok_step)
  show ?case
  proof (cases "p < offset + ?tw")
    case False
    then show ?thesis
      using "1.prems"(2,4) tw by (intro "1.IH" [OF True wb [symmetric] _ wl]) auto
  next
    case inside: True
    with "1.prems"(3) tw(3) have "p - offset < BLOCK_SIZE - offset mod BLOCK_SIZE" by simp
    from in_block_div [OF this] "1.prems"(3) have "p div BLOCK_SIZE = offset div BLOCK_SIZE" by simp
    with write_block_path_fits [OF wb] show ?thesis by simp
  qed
qed

lemma write_loop_succeeds:
  "(\<forall>p. offset \<le> p \<and> p < offset + sz \<longrightarrow>
        fst (get_block_path f (c_int (int (p div BLOCK_SIZE)))) = 0 \<and>
        block_file_path f (c_int (int (p div BLOCK_SIZE))) \<notin> dirs fs) \<Longrightarrow>
   f @ ''.blocks'' \<in> dirs fs \<Longrightarrow> buf + sz \<le> length buffer \<Longrightarrow>
   fst (write_loop fs f buffer buf sz offset tot) = tot + int sz"
proof (induction fs f buffer buf sz offset tot rule: write_loop.induct)
  case (1 fs f buffer buf sz offset tot)
  show ?case
  proof (cases "0 < sz")
    case False
    then show ?thesis by (simp add: write_loop.simps)
  next
    case True
    let ?tw = "sub_span sz offset"
    have tw: "0 < ?tw" "?tw \<le> sz" using True by (simp_all add: sub_span_pos sub_span_le)
    obtain ok fs1 where wb: "write_block fs f buffer buf sz offset = (ok, fs1)"
      by (cases "write_block fs f buffer buf sz offset")
    from "1.prems"(1) True have
      "fst (get_block_path f (c_int (int (offset div BLOCK_SIZE)))) = 0"
      "block_file_path f (c_int (int (offset div BLOCK_SIZE))) \<notin> dirs fs" by simp_all
    from write_block_succeeds [OF this "1.prems"(2), of buf sz buffer] wb tw "1.prems"(3)
    have ok: ok by simp
    have d: "dirs fs1 = dirs fs" by (rule write_block_frame(1) [OF wb])
    have "fst (write_loop fs1 f buffer (buf + ?tw) (sz - ?tw) (offset + ?tw) (tot + int ?tw))
            = tot + int ?tw + int (sz - ?tw)"
      using "1.prems" tw ok d by (intro "1.IH" [OF True wb [symmetric]]) auto
    with wb ok True tw show ?thesis by (simp add: write_loop_step)
  qed
qed

lemma small_block_path:
  assumes "length f \<le> 1003" and "p < 4096000000"
  shows "get_block_path f (c_int (int (p div BLOCK_SIZE))) = (0, block_file_path f (int (p div BLOCK_SIZE)))"
    and "c_int (int (p div BLOCK_SIZE)) = int (p div BLOCK_SIZE)"
proof -
  from assms(2) have "p div BLOCK_SIZE < 1000000" by simp
  then have lt: "int (p div BLOCK_SIZE) < 1000000" by simp
  then show c: "c_int (int (p div BLOCK_SIZE)) = int (p div BLOCK_SIZE)" by (intro c_int_id) simp_all
  show "get_block_path f (c_int (int (p div BLOCK_SIZE))) = (0, block_file_path f (int (p div BLOCK_SIZE)))"
    unfolding c using lt assms(1) by (intro block_path_small) simp_all
qed

lemma block_write_succeeds:
  assumes "length (filename h) \<le> 1003" and "0 \<le> sz" and "0 \<le> offset" and "offset + sz \<le> 4096000000"
    and "nat sz \<le> length b" and "filename h @ ''.blocks'' \<in> dirs fs"
    and "\<forall>k. block_file_path (filename h) k \<notin> dirs fs"
  shows "fst (block_write fs (Some h) (Some b) sz offset) = sz"
proof -
  have "fst (write_loop fs (filename h) b 0 (nat sz) (nat offset) 0) = 0 + int (nat sz)"
  proof (rule write_loop_succeeds)
    show "\<forall>p. nat offset \<le> p \<and> p < nat offset + nat sz \<longrightarrow>
        fst (get_block_path (filename h) (c_int (int (p div BLOCK_SIZE)))) = 0 \<and>
        block_file_path (filename h) (c_int (int (p div BLOCK_SIZE))) \<notin> dirs fs"
    proof (intro allI impI)
      fix p assume "nat offset \<le> p \<and> p < nat offset + nat sz"
      with assms(2,3,4) have "p < 4096000000" by linarith
      from small_block_path [OF assms(1) this] assms(7)
      show "fst (get_block_path (filename h) (c_int (int (p div BLOCK_SIZE)))) = 0 \<and>
        block_file_path (filename h) (c_int (int (p div BLOCK_SIZE))) \<notin> dirs fs" by simp
    qed
  qed (use assms in simp_all)
  with assms(2,3) show ?thesis by (simp add: block_write_def)
qed

lemma block_read_succeeds:
  assumes "length (filename h) \<le> 1003" and "0 \<le> sz" and "0 \<le> offset" and "offset + sz \<le> 4096000000"
  shows "fst (block_read fs (Some h) (Some out) sz offset) = sz"
proof -
  have "fst (read_loop fs (filename h) out 0 (nat sz) (nat offset) 0) = 0 + int (nat sz)"
  proof (rule read_loop_succeeds, intro allI impI)
    fix p assume "nat offset \<le> p \<and> p < nat offset + nat sz"
    with assms(2,3,4) have "p < 4096000000" by linarith
    from small_block_path [OF assms(1) this]
    show "fst (get_block_path (filename h) (c_int (int (p div BLOCK_SIZE)))) = 0" by simp
  qed
  with assms(2,3) show ?thesis by (auto simp: block_read_def split: prod.splits)
qed

text \<open>What a read returns, once it is known not to fail.\<close>

lemma block_read_eq:
  assumes "0 \<le> sz" and "0 \<le> offset" and "nat sz \<le> length out"
    and "\<forall>p. nat offset \<le> p \<and> p < nat offset + nat sz \<longrightarrow>
           fst (get_block_path (filename h) (c_int (int (p div BLOCK_SIZE)))) = 0"
  shows "block_read fs (Some h) (Some out) sz offset =
    (sz, Some (map (vbyte fs (filename h)) [nat offset ..< nat offset + nat sz] @ drop (nat sz) out))"
proof -
  obtain r b' where rl: "read_loop fs (filename h) out 0 (nat sz) (nat offset) 0 = (r, b')"
    by (cases "read_loop fs (filename h) out 0 (nat sz) (nat offset) 0")
  from read_loop_succeeds [OF assms(4), of fs out 0 0] rl assms(1) have r: "r = sz" by simp
  with assms(1) have "r \<noteq> - 1" by simp
  from read_loop_ok [OF rl this] assms(3)
  have "b' = map (vbyte fs (filename h)) [nat offset ..< nat offset + nat sz] @ drop (nat sz) out"
    by simp
  with rl r assms(1,2) show ?thesis by (simp add: block_read_def)
qed

text \<open>
  C1, the round trip. A write of \<open>sz\<close> bytes (a C \<^verbatim>\<open>int\<close>, so below \<open>2^31\<close>) at a
  non-negative offset that does not fail returns \<open>sz\<close>, and a read of the same size at the
  same offset then returns \<open>sz\<close> and puts exactly the bytes written into the first \<open>sz\<close>
  places of the caller's buffer.
\<close>

theorem write_read_round_trip:
  assumes "0 \<le> sz" and "sz < 2 ^ 31" and "0 \<le> offset"
    and "nat sz \<le> length b" and "nat sz \<le> length out"
    and "block_write fs (Some h) (Some b) sz offset = (r, fs')" and "r \<noteq> - 1"
  shows "r = sz \<and>
         block_read fs' (Some h) (Some out) sz offset = (sz, Some (take (nat sz) b @ drop (nat sz) out))"
proof -
  let ?f = "filename h"
  from assms(1,3,6) have wl: "write_loop fs ?f b 0 (nat sz) (nat offset) 0 = (r, fs')"
    by (simp add: block_write_def)
  from write_loop_result [OF wl] assms(1,7) have r: "r = sz" by simp
  have fits: "\<forall>p. nat offset \<le> p \<and> p < nat offset + nat sz \<longrightarrow>
           fst (get_block_path ?f (c_int (int (p div BLOCK_SIZE)))) = 0"
    using write_loop_paths_fit [OF wl assms(7)] by blast
  have sz: "nat sz < 2 ^ 31" using assms(1,2) by simp
  have "map (vbyte fs' ?f) [nat offset ..< nat offset + nat sz] = take (nat sz) b"
  proof (rule nth_equalityI)
    show "length (map (vbyte fs' ?f) [nat offset ..< nat offset + nat sz]) = length (take (nat sz) b)"
      using assms(4) by simp
  next
    fix i assume "i < length (map (vbyte fs' ?f) [nat offset ..< nat offset + nat sz])"
    then have i: "i < nat sz" by simp
    have "vbyte fs' ?f (nat offset + i) = b ! (0 + (nat offset + i - nat offset))"
      using assms(4) sz i by (intro write_loop_update [OF wl assms(7)]) simp_all
    with i show "map (vbyte fs' ?f) [nat offset ..< nat offset + nat sz] ! i = take (nat sz) b ! i"
      by simp
  qed
  with block_read_eq [OF assms(1,3,5) fits, of fs'] r show ?thesis by simp
qed

lemma round_trip_example:
  "fst (block_write \<lparr>files = Map.empty, dirs = {''f.blocks''}\<rparr> (Some \<lparr>filename = ''f''\<rparr>)
          (Some [1, 2, 3]) 3 4094) = 3"
  by (rule block_write_succeeds) (simp_all add: block_file_path_def)

theorem write_read_round_trip_witness:
  "fst (block_write \<lparr>files = Map.empty, dirs = {''f.blocks''}\<rparr> (Some \<lparr>filename = ''f''\<rparr>)
          (Some [1, 2, 3]) 3 4094) = 3 \<and>
   block_read (snd (block_write \<lparr>files = Map.empty, dirs = {''f.blocks''}\<rparr> (Some \<lparr>filename = ''f''\<rparr>)
          (Some [1, 2, 3]) 3 4094)) (Some \<lparr>filename = ''f''\<rparr>) (Some [9, 9, 9, 9]) 3 4094
     = (3, Some [1, 2, 3, 9])"
proof -
  let ?w = "block_write \<lparr>files = Map.empty, dirs = {''f.blocks''}\<rparr> (Some \<lparr>filename = ''f''\<rparr>)
          (Some [1, 2, 3]) 3 4094"
  have e: "?w = (fst ?w, snd ?w)" by simp
  have ne: "fst ?w \<noteq> - 1" using round_trip_example by simp
  from write_read_round_trip [OF _ _ _ _ _ e ne, of "[9, 9, 9, 9]"] round_trip_example
  show ?thesis by simp
qed

section \<open>Partial writes and the first write to a fresh file\<close>

lemma c_int_div_nat: "0 \<le> p \<Longrightarrow> c_int (int (nat p div BLOCK_SIZE)) = c_int (p div 4096)"
  by (simp add: zdiv_int)

lemma block_open_fresh:
  assumes "length fname \<le> 1003" and "no_blocks fs0 fname" and "files fs0 (fname @ ''.blocks'') = None"
    and "block_open fs0 fname = (0, bf, fs)"
  shows "bf = Some \<lparr>filename = fname\<rparr>" and "files fs = files fs0"
    and "fname @ ''.blocks'' \<in> dirs fs" and "no_blocks fs fname"
proof -
  from assms(1) have d: "get_block_dir fname = fname @ ''.blocks''" by (simp add: get_block_dir_eq)
  have ne: "\<And>k. block_file_path fname k \<noteq> fname @ ''.blocks''" by (simp add: block_file_path_def)
  from assms(3,4) have
    "bf = Some \<lparr>filename = fname\<rparr> \<and> files fs = files fs0 \<and> fname @ ''.blocks'' \<in> dirs fs \<and>
     dirs fs \<subseteq> insert (fname @ ''.blocks'') (dirs fs0)"
    by (auto simp: block_open_def ensure_block_dir_def d stat_def mkdir_def Let_def
        split: if_splits option.splits sum.splits prod.splits)
  then have f: "files fs = files fs0"
    and sub: "dirs fs \<subseteq> insert (fname @ ''.blocks'') (dirs fs0)"
    and r: "bf = Some \<lparr>filename = fname\<rparr>" "fname @ ''.blocks'' \<in> dirs fs" by simp_all
  from r f show "bf = Some \<lparr>filename = fname\<rparr>" and "files fs = files fs0"
    and "fname @ ''.blocks'' \<in> dirs fs" by simp_all
  show "no_blocks fs fname"
    unfolding no_blocks_def
  proof
    fix k
    from assms(2) have "stat fs0 (block_file_path fname k) = None" by (simp add: no_blocks_def)
    then have "files fs0 (block_file_path fname k) = None" "block_file_path fname k \<notin> dirs fs0"
      by (auto simp: stat_def split: option.splits if_splits)
    with f sub ne [of k] show "stat fs (block_file_path fname k) = None"
      by (auto simp: stat_def)
  qed
qed

lemma no_blocks_dirs: "no_blocks fs f \<Longrightarrow> block_file_path f k \<notin> dirs fs"
proof -
  assume "no_blocks fs f"
  then have "stat fs (block_file_path f k) = None" by (simp add: no_blocks_def)
  then show ?thesis by (auto simp: stat_def split: option.splits if_splits)
qed

lemma same_cell_small: "q < BLOCK_SIZE \<Longrightarrow> p < BLOCK_SIZE \<Longrightarrow> same_cell q p \<longleftrightarrow> q = p"
  by (auto simp: same_cell_def)

lemma first_write_scenario:
  assumes "length (filename h) \<le> 1003" and "no_blocks fs1 (filename h)"
    and "filename h @ ''.blocks'' \<in> dirs fs1"
    and "length hello = 13" and "50 \<le> length out"
  shows "\<exists>fs2. block_write fs1 (Some h) (Some hello) 13 0 = (13, fs2) \<and>
           block_file_size fs2 (Some h) = 4096 \<and>
           block_read fs2 (Some h) (Some out) 13 0 = (13, Some (hello @ drop 13 out)) \<and>
           block_read fs2 (Some h) (Some out) 50 0 = (50, Some (hello @ replicate 37 0 @ drop 50 out))"
proof -
  let ?f = "filename h"
  define fs2 where "fs2 = snd (block_write fs1 (Some h) (Some hello) 13 0)"
  have "fst (block_write fs1 (Some h) (Some hello) 13 0) = 13"
    using assms no_blocks_dirs [OF assms(2)] by (intro block_write_succeeds) simp_all
  then have w: "block_write fs1 (Some h) (Some hello) 13 0 = (13, fs2)"
    by (simp add: fs2_def prod_eq_iff)
  then have wl: "write_loop fs1 ?f hello 0 13 0 0 = (13, fs2)" by (simp add: block_write_def)
  have c0: "c_int 0 = 0" by (simp add: c_int_def)
  have blk: "c_int (int (p div BLOCK_SIZE)) = 0" if "p < BLOCK_SIZE" for p
    using that by (simp add: c0)
  have "\<exists>c. files fs2 (block_file_path ?f 0) = Some c \<and> length c = BLOCK_SIZE"
    using assms(4) by (intro write_loop_full_blocks [OF wl] disjI2 exI [of _ 0]) (simp_all add: c0)
  then have st0: "stat fs2 (block_file_path ?f 0) = Some BLOCK_SIZE" by (auto simp: stat_def)
  have fr: "dirs fs2 = dirs fs1"
    "\<And>P. P \<noteq> block_file_path ?f 0 \<Longrightarrow> files fs2 P = files fs1 P"
    using write_loop_frame_files [OF wl] by (auto simp: c0)
  have stk: "stat fs2 (block_file_path ?f k) = None" if "k \<noteq> 0" for k
  proof -
    from that have "block_file_path ?f k \<noteq> block_file_path ?f 0" using block_file_path_inj by blast
    with fr no_blocks_files [OF assms(2), of k] no_blocks_dirs [OF assms(2), of k]
    show ?thesis by (simp add: stat_def)
  qed
  have be: "block_end fs2 ?f k = (if k = 0 then 4096 else 0)" for k
    using st0 stk [of k] by (simp add: block_end_def)
  have "Max (insert 0 (block_end fs2 ?f ` {0 ..< 10000})) = 4096"
    by (rule Max_eqI) (auto simp: be)
  then have size: "block_file_size fs2 (Some h) = 4096" using assms(1) by (simp add: block_file_size_eq)
  have fits: "\<forall>p. nat 0 \<le> p \<and> p < nat 0 + nat n \<longrightarrow>
           fst (get_block_path ?f (c_int (int (p div BLOCK_SIZE)))) = 0" if "n \<le> 50" for n :: int
  proof (intro allI impI)
    fix p assume "nat 0 \<le> p \<and> p < nat 0 + nat n"
    with that have "p < 4096000000" by simp
    from small_block_path(1) [OF assms(1) this]
    show "fst (get_block_path ?f (c_int (int (p div BLOCK_SIZE)))) = 0" by simp
  qed
  have upd: "vbyte fs2 ?f p = hello ! p" if "p < 13" for p
    using write_loop_update [OF wl, of p] that assms(4) by simp
  have old: "vbyte fs2 ?f p = 0" if "13 \<le> p" "p < 50" for p
  proof -
    have "vbyte fs2 ?f p = vbyte fs1 ?f p"
      using that assms(4) by (intro write_loop_frame [OF wl]) (auto simp: same_cell_small)
    then show ?thesis by (simp add: no_blocks_vbyte [OF assms(2)])
  qed
  have m13: "map (vbyte fs2 ?f) [0 ..< 13] = hello"
    using assms(4) by (intro nth_equalityI) (simp_all add: upd del: upt_rec_numeral)
  have "[0 ..< 50] = [0 ..< 13] @ [13 ..< 50 :: nat]"
    using upt_add_eq_append [of 0 13 37] by (simp del: upt_rec_numeral)
  moreover have "map (vbyte fs2 ?f) [13 ..< 50] = map (\<lambda>p. 0) [13 ..< 50]"
    by (rule map_cong [OF refl]) (simp add: old del: upt_rec_numeral)
  then have "map (vbyte fs2 ?f) [13 ..< 50] = replicate 37 0"
    by (simp add: map_replicate_const del: upt_rec_numeral)
  ultimately have m50: "map (vbyte fs2 ?f) [0 ..< 50] = hello @ replicate 37 0"
    using m13 by (simp del: upt_rec_numeral)
  have r13: "block_read fs2 (Some h) (Some out) 13 0 = (13, Some (hello @ drop 13 out))"
    using block_read_eq [OF _ _ _ fits [of 13], of out fs2] assms(5) m13 by (simp del: upt_rec_numeral)
  have r50: "block_read fs2 (Some h) (Some out) 50 0 = (50, Some (hello @ replicate 37 0 @ drop 50 out))"
    using block_read_eq [OF _ _ _ fits [of 50], of out fs2] assms(5) m50 by (simp del: upt_rec_numeral)
  from w size r13 r50 show ?thesis by blast
qed

lemma same_cell_below_limit:
  assumes "q < 4096000000" and "p < 4096000000" and "same_cell q p"
  shows "q = p"
proof -
  from assms(3) have c: "c_int (int (q div BLOCK_SIZE)) = c_int (int (p div BLOCK_SIZE))"
    and m: "q mod BLOCK_SIZE = p mod BLOCK_SIZE" by (simp_all add: same_cell_def)
  have "c_int (int (q div BLOCK_SIZE)) = int (q div BLOCK_SIZE)"
    and "c_int (int (p div BLOCK_SIZE)) = int (p div BLOCK_SIZE)"
    using small_block_path(2) [of "[]"] assms(1,2) by simp_all
  with c have "int (q div BLOCK_SIZE) = int (p div BLOCK_SIZE)" by simp
  then have d: "q div BLOCK_SIZE = p div BLOCK_SIZE" by simp
  have "q = q div BLOCK_SIZE * BLOCK_SIZE + q mod BLOCK_SIZE" by simp
  also have "\<dots> = p div BLOCK_SIZE * BLOCK_SIZE + p mod BLOCK_SIZE" by (simp only: d m)
  also have "\<dots> = p" by simp
  finally show ?thesis .
qed

lemma block_write_effect:
  assumes len: "length (filename h) \<le> 1003"
    and sz: "0 \<le> sz" "sz < 2 ^ 31" and off: "0 \<le> offset" and lim: "offset + sz \<le> 4096000000"
    and buf: "nat sz \<le> length b" and dir: "filename h @ ''.blocks'' \<in> dirs fs"
    and nd: "\<forall>p. offset \<le> p \<and> p < offset + sz \<longrightarrow>
               block_file_path (filename h) (p div 4096) \<notin> dirs fs"
  shows "\<exists>fs'. block_write fs (Some h) (Some b) sz offset = (sz, fs') \<and>
     (\<forall>p. offset \<le> p \<and> p < offset + sz \<longrightarrow>
        (\<exists>c. files fs' (block_file_path (filename h) (p div 4096)) = Some c \<and>
             length c = BLOCK_SIZE \<and>
             (\<forall>j < 4096. c ! j =
                (if offset \<le> p div 4096 * 4096 + int j \<and> p div 4096 * 4096 + int j < offset + sz
                 then b ! nat (p div 4096 * 4096 + int j - offset)
                 else zero_padded (block_bytes fs (filename h) (p div 4096)) ! j))))"
proof -
  let ?f = "filename h"
  define fs' where "fs' = snd (block_write fs (Some h) (Some b) sz offset)"
  have small: "q < 4096000000" if "q < nat offset + nat sz" for q
    using that sz(1) off lim by linarith
  have idx: "int (nat p div BLOCK_SIZE) = p div 4096" if "0 \<le> p" for p :: int
    using that by (simp add: zdiv_int)
  have "fst (write_loop fs ?f b 0 (nat sz) (nat offset) 0) = 0 + int (nat sz)"
  proof (rule write_loop_succeeds)
    show "\<forall>q. nat offset \<le> q \<and> q < nat offset + nat sz \<longrightarrow>
        fst (get_block_path ?f (c_int (int (q div BLOCK_SIZE)))) = 0 \<and>
        block_file_path ?f (c_int (int (q div BLOCK_SIZE))) \<notin> dirs fs"
    proof (intro allI impI)
      fix q assume q: "nat offset \<le> q \<and> q < nat offset + nat sz"
      then have s: "q < 4096000000" by (simp add: small)
      from q sz(1) off have "offset \<le> int q \<and> int q < offset + sz" by linarith
      with nd have "block_file_path ?f (int q div 4096) \<notin> dirs fs" by blast
      moreover have "int q div 4096 = int (q div BLOCK_SIZE)" by (simp add: zdiv_int)
      ultimately show "fst (get_block_path ?f (c_int (int (q div BLOCK_SIZE)))) = 0 \<and>
        block_file_path ?f (c_int (int (q div BLOCK_SIZE))) \<notin> dirs fs"
        using small_block_path [OF len s] by simp
    qed
  qed (use dir buf in simp_all)
  with sz(1) off have w: "block_write fs (Some h) (Some b) sz offset = (sz, fs')"
    by (simp add: block_write_def fs'_def prod_eq_iff)
  with sz(1) off have wl: "write_loop fs ?f b 0 (nat sz) (nat offset) 0 = (sz, fs')"
    by (simp add: block_write_def)
  from sz(1) have ok: "sz \<noteq> - 1" by simp
  from sz have sz31: "nat sz < 2 ^ 31" by simp
  have blocks: "\<exists>c. files fs' (block_file_path ?f (p div 4096)) = Some c \<and>
             length c = BLOCK_SIZE \<and>
             (\<forall>j < 4096. c ! j =
                (if offset \<le> p div 4096 * 4096 + int j \<and> p div 4096 * 4096 + int j < offset + sz
                 then b ! nat (p div 4096 * 4096 + int j - offset)
                 else zero_padded (block_bytes fs ?f (p div 4096)) ! j))"
    if p: "offset \<le> p \<and> p < offset + sz" for p
  proof -
    define P where "P = nat p"
    define K where "K = P div BLOCK_SIZE"
    from p off have p0: "0 \<le> p" by simp
    from p sz(1) off have Pin: "nat offset \<le> P" "P < nat offset + nat sz"
      unfolding P_def by linarith+
    from small [OF Pin(2)] have Ps: "P < 4096000000" .
    then have Ks: "K < 1000000" by (simp add: K_def)
    have k: "p div 4096 = int K" using idx [OF p0] by (simp add: K_def P_def)
    have cK: "c_int (int (P div BLOCK_SIZE)) = int K"
      using small_block_path(2) [OF len Ps] by (simp add: K_def)
    have "\<exists>c. files fs' (block_file_path ?f (c_int (int (P div BLOCK_SIZE)))) = Some c \<and>
            length c = BLOCK_SIZE"
      using Pin buf by (intro write_loop_full_blocks [OF wl ok] disjI2 exI [of _ P]) simp_all
    then obtain c where c: "files fs' (block_file_path ?f (int K)) = Some c" "length c = BLOCK_SIZE"
      unfolding cK by blast
    have bytes: "c ! j =
                (if offset \<le> int K * 4096 + int j \<and> int K * 4096 + int j < offset + sz
                 then b ! nat (int K * 4096 + int j - offset)
                 else zero_padded (block_bytes fs ?f (int K)) ! j)" if j: "j < 4096" for j
    proof -
      define q where "q = K * BLOCK_SIZE + j"
      from j have qd: "q div BLOCK_SIZE = K" and qm: "q mod BLOCK_SIZE = j" by (simp_all add: q_def)
      from Ks j have qs: "q < 4096000000" unfolding q_def by linarith
      have iq: "int q = int K * 4096 + int j" by (simp add: q_def)
      have cq: "c_int (int (q div BLOCK_SIZE)) = int K"
        using small_block_path(2) [OF len qs] by (simp add: qd)
      have v': "vbyte fs' ?f q = c ! j"
        using c j by (simp add: vbyte_def cq qm block_bytes_def)
      have v: "vbyte fs ?f q = zero_padded (block_bytes fs ?f (int K)) ! j"
        using j by (simp add: vbyte_def cq qm nth_zero_padded)
      show ?thesis
      proof (cases "nat offset \<le> q \<and> q < nat offset + nat sz")
        case True
        then have cond: "offset \<le> int K * 4096 + int j \<and> int K * 4096 + int j < offset + sz"
          using sz(1) off unfolding iq [symmetric] by linarith
        from True off have n: "nat (int K * 4096 + int j - offset) = q - nat offset"
          unfolding iq [symmetric] by linarith
        from True have "vbyte fs' ?f q = b ! (0 + (q - nat offset))"
          using buf by (intro write_loop_update [OF wl ok _ sz31]) simp_all
        with v' n have "c ! j = b ! nat (int K * 4096 + int j - offset)" by simp
        with cond show ?thesis by auto
      next
        case False
        then have cond: "\<not> (offset \<le> int K * 4096 + int j \<and> int K * 4096 + int j < offset + sz)"
          using sz(1) off unfolding iq [symmetric] by linarith
        have "\<forall>p'. nat offset \<le> p' \<and> p' < nat offset + nat sz \<longrightarrow> \<not> same_cell q p'"
        proof (intro allI impI notI)
          fix p' assume p': "nat offset \<le> p' \<and> p' < nat offset + nat sz" and sc: "same_cell q p'"
          from p' have "p' < 4096000000" by (simp add: small)
          from same_cell_below_limit [OF qs this sc] p' False show False by simp
        qed
        from write_loop_frame [OF wl ok _ this] buf have "vbyte fs' ?f q = vbyte fs ?f q" by simp
        with v v' have "c ! j = zero_padded (block_bytes fs ?f (int K)) ! j" by simp
        with cond show ?thesis by auto
      qed
    qed
    from c bytes show ?thesis unfolding k by blast
  qed
  from w blocks show ?thesis by blast
qed

text \<open>
  C6. After a write that does not fail, the block file of every position written has the
  full length of 4096 bytes, whether the block was written as a whole or in part. And the
  write does not fail, whatever block files exist and however short they are, when the
  file name has at most 1003 characters, the span ends at or before 4096000000, the block
  directory exists and no directory sits at the path of a block of the span: it returns
  \<open>sz\<close>, and each block file of the span then has 4096 bytes, which are the bytes written
  where the span covers them and elsewhere the old content of the block file, continued
  with zeros after its end. So a partial write loads the block into a zero-filled buffer of
  4096 bytes and writes all of it, and a short block file does not stay short. The
  scenario: on a virtual file just opened, with no block files, writing 13 bytes at offset
  0 returns 13; then the size is 4096, reading 13 bytes returns them, and reading 50 bytes
  returns them followed by 37 zero bytes.
\<close>

theorem partial_write_makes_full_block:
  "(0 \<le> sz \<and> 0 \<le> offset \<and> nat sz \<le> length b \<and>
    block_write fs (Some h) (Some b) sz offset = (r, fs') \<and> r \<noteq> - 1 \<longrightarrow>
      (\<forall>p. offset \<le> p \<and> p < offset + sz \<longrightarrow>
         (\<exists>c. files fs' (block_file_path (filename h) (c_int (p div 4096))) = Some c \<and>
              length c = BLOCK_SIZE))) \<and>
   (length (filename h) \<le> 1003 \<and> 0 \<le> sz \<and> sz < 2 ^ 31 \<and> 0 \<le> offset \<and>
    offset + sz \<le> 4096000000 \<and> nat sz \<le> length b \<and> filename h @ ''.blocks'' \<in> dirs fs \<and>
    (\<forall>p. offset \<le> p \<and> p < offset + sz \<longrightarrow>
        block_file_path (filename h) (p div 4096) \<notin> dirs fs) \<longrightarrow>
      (\<exists>fs3. block_write fs (Some h) (Some b) sz offset = (sz, fs3) \<and>
         (\<forall>p. offset \<le> p \<and> p < offset + sz \<longrightarrow>
            (\<exists>c. files fs3 (block_file_path (filename h) (p div 4096)) = Some c \<and>
                 length c = BLOCK_SIZE \<and>
                 (\<forall>j < 4096. c ! j =
                    (if offset \<le> p div 4096 * 4096 + int j \<and> p div 4096 * 4096 + int j < offset + sz
                     then b ! nat (p div 4096 * 4096 + int j - offset)
                     else zero_padded (block_bytes fs (filename h) (p div 4096)) ! j)))))) \<and>
   (length fname \<le> 1003 \<and> no_blocks fs0 fname \<and> files fs0 (fname @ ''.blocks'') = None \<and>
    block_open fs0 fname = (0, bf, fs1) \<and> length hello = 13 \<and> 50 \<le> length out \<longrightarrow>
      (\<exists>fs2. block_write fs1 bf (Some hello) 13 0 = (13, fs2) \<and>
         block_file_size fs2 bf = 4096 \<and>
         block_read fs2 bf (Some out) 13 0 = (13, Some (hello @ drop 13 out)) \<and>
         block_read fs2 bf (Some out) 50 0 = (50, Some (hello @ replicate 37 0 @ drop 50 out))))"
proof (intro conjI impI allI)
  fix p
  assume a: "0 \<le> sz \<and> 0 \<le> offset \<and> nat sz \<le> length b \<and>
    block_write fs (Some h) (Some b) sz offset = (r, fs') \<and> r \<noteq> - 1"
    and p: "offset \<le> p \<and> p < offset + sz"
  from a have wl: "write_loop fs (filename h) b 0 (nat sz) (nat offset) 0 = (r, fs')"
    by (auto simp: block_write_def split: if_splits)
  from a p have p0: "0 \<le> p" by simp
  have "\<exists>c. files fs' (block_file_path (filename h) (c_int (int (nat p div BLOCK_SIZE)))) = Some c \<and>
            length c = BLOCK_SIZE"
    using a p by (intro write_loop_full_blocks [OF wl] disjI2 exI [of _ "nat p"]) auto
  then show "\<exists>c. files fs' (block_file_path (filename h) (c_int (p div 4096))) = Some c \<and>
            length c = BLOCK_SIZE"
    by (simp only: c_int_div_nat [OF p0])
next
  assume "length (filename h) \<le> 1003 \<and> 0 \<le> sz \<and> sz < 2 ^ 31 \<and> 0 \<le> offset \<and>
    offset + sz \<le> 4096000000 \<and> nat sz \<le> length b \<and> filename h @ ''.blocks'' \<in> dirs fs \<and>
    (\<forall>p. offset \<le> p \<and> p < offset + sz \<longrightarrow>
        block_file_path (filename h) (p div 4096) \<notin> dirs fs)"
  then show "\<exists>fs3. block_write fs (Some h) (Some b) sz offset = (sz, fs3) \<and>
         (\<forall>p. offset \<le> p \<and> p < offset + sz \<longrightarrow>
            (\<exists>c. files fs3 (block_file_path (filename h) (p div 4096)) = Some c \<and>
                 length c = BLOCK_SIZE \<and>
                 (\<forall>j < 4096. c ! j =
                    (if offset \<le> p div 4096 * 4096 + int j \<and> p div 4096 * 4096 + int j < offset + sz
                     then b ! nat (p div 4096 * 4096 + int j - offset)
                     else zero_padded (block_bytes fs (filename h) (p div 4096)) ! j))))"
    by (intro block_write_effect) simp_all
next
  assume a: "length fname \<le> 1003 \<and> no_blocks fs0 fname \<and> files fs0 (fname @ ''.blocks'') = None \<and>
    block_open fs0 fname = (0, bf, fs1) \<and> length hello = 13 \<and> 50 \<le> length out"
  then have o: "bf = Some \<lparr>filename = fname\<rparr>" "fname @ ''.blocks'' \<in> dirs fs1" "no_blocks fs1 fname"
    using block_open_fresh [of fname fs0 bf fs1] by simp_all
  from a o first_write_scenario [of "\<lparr>filename = fname\<rparr>" fs1 hello out]
  show "\<exists>fs2. block_write fs1 bf (Some hello) 13 0 = (13, fs2) \<and>
         block_file_size fs2 bf = 4096 \<and>
         block_read fs2 bf (Some out) 13 0 = (13, Some (hello @ drop 13 out)) \<and>
         block_read fs2 bf (Some out) 50 0 = (50, Some (hello @ replicate 37 0 @ drop 50 out))"
    by simp
qed

lemma block_open_example:
  "block_open \<lparr>files = Map.empty, dirs = {''.''}\<rparr> ''f''
     = (0, Some \<lparr>filename = ''f''\<rparr>, \<lparr>files = Map.empty, dirs = {''f.blocks'', ''.''}\<rparr>)"
  by (simp add: block_open_def ensure_block_dir_def get_block_dir_def snprintf_def stat_def mkdir_def
      parent_dir_def)

lemma short_block_rewritten:
  assumes "length c = BLOCK_SIZE"
    and "\<forall>j < 4096. c ! j = (if 5 \<le> int j \<and> int j < 6 then [9] ! nat (int j - 5)
                                else zero_padded [1, 2, 3] ! j)"
  shows "c = [1, 2, 3, 0, 0, 9] @ replicate 4090 (0 :: byte)"
proof (rule nth_equalityI)
  show "length c = length ([1, 2, 3, 0, 0, 9] @ replicate 4090 (0 :: byte))" using assms(1) by simp
next
  fix j assume "j < length c"
  with assms(1) have j: "j < 4096" by simp
  consider "j = 0" | "j = 1" | "j = 2" | "j = 3" | "j = 4" | "j = 5" | "6 \<le> j" by linarith
  then show "c ! j = ([1, 2, 3, 0, 0, 9] @ replicate 4090 (0 :: byte)) ! j"
  proof cases
    case 7
    with j assms(2) show ?thesis by (simp add: nth_zero_padded nth_append)
  qed (use assms(2) in \<open>simp_all add: nth_zero_padded\<close>)
qed

theorem partial_write_makes_full_block_witness:
  "(\<exists>fs3. block_write \<lparr>files = [''f.blocks/block_000000'' \<mapsto> [1, 2, 3]], dirs = {''f.blocks''}\<rparr>
            (Some \<lparr>filename = ''f''\<rparr>) (Some [9]) 1 5 = (1, fs3) \<and>
          files fs3 ''f.blocks/block_000000'' = Some ([1, 2, 3, 0, 0, 9] @ replicate 4090 0)) \<and>
   block_open \<lparr>files = Map.empty, dirs = {''.''}\<rparr> ''f''
     = (0, Some \<lparr>filename = ''f''\<rparr>, \<lparr>files = Map.empty, dirs = {''f.blocks'', ''.''}\<rparr>) \<and>
   (\<exists>fs2. block_write \<lparr>files = Map.empty, dirs = {''f.blocks'', ''.''}\<rparr> (Some \<lparr>filename = ''f''\<rparr>)
            (Some [72, 101, 108, 108, 111, 44, 32, 87, 111, 114, 108, 100, 33]) 13 0 = (13, fs2) \<and>
          block_file_size fs2 (Some \<lparr>filename = ''f''\<rparr>) = 4096 \<and>
          block_read fs2 (Some \<lparr>filename = ''f''\<rparr>) (Some (replicate 50 7)) 50 0
            = (50, Some ([72, 101, 108, 108, 111, 44, 32, 87, 111, 114, 108, 100, 33] @ replicate 37 0)))"
proof -
  let ?S = "\<lparr>files = [''f.blocks/block_000000'' \<mapsto> [1, 2, 3]], dirs = {''f.blocks''}\<rparr>"
  have nd: "\<forall>p. (5 :: int) \<le> p \<and> p < 5 + 1 \<longrightarrow>
      block_file_path (filename \<lparr>filename = ''f''\<rparr>) (p div 4096) \<notin> dirs ?S"
    by (simp add: block_file_path_def)
  from partial_write_makes_full_block
         [where h = "\<lparr>filename = ''f''\<rparr>" and sz = 1 and offset = 5 and b = "[9]" and fs = ?S,
          THEN conjunct2, THEN conjunct1] nd
  obtain fs3 where w: "block_write ?S (Some \<lparr>filename = ''f''\<rparr>) (Some [9]) 1 5 = (1, fs3)"
    and blk: "\<forall>p. (5 :: int) \<le> p \<and> p < 5 + 1 \<longrightarrow>
            (\<exists>c. files fs3 (block_file_path ''f'' (p div 4096)) = Some c \<and>
                 length c = BLOCK_SIZE \<and>
                 (\<forall>j < 4096. c ! j =
                    (if 5 \<le> p div 4096 * 4096 + int j \<and> p div 4096 * 4096 + int j < 5 + 1
                     then [9] ! nat (p div 4096 * 4096 + int j - 5)
                     else zero_padded (block_bytes ?S ''f'' (p div 4096)) ! j)))"
    by auto
  from blk [rule_format, of 5]
  obtain c where c: "files fs3 ''f.blocks/block_000000'' = Some c" "length c = BLOCK_SIZE"
    "\<forall>j < 4096. c ! j = (if 5 \<le> int j \<and> int j < 6 then [9] ! nat (int j - 5)
                                else zero_padded [1, 2, 3] ! j)"
    by (auto simp: block_file_path_f_0 block_bytes_def)
  from short_block_rewritten [OF c(2,3)] c(1) w
  have short: "\<exists>fs3. block_write ?S (Some \<lparr>filename = ''f''\<rparr>) (Some [9]) 1 5 = (1, fs3) \<and>
          files fs3 ''f.blocks/block_000000'' = Some ([1, 2, 3, 0, 0, 9] @ replicate 4090 0)"
    by simp
  have nb: "no_blocks \<lparr>files = Map.empty, dirs = {''.''}\<rparr> ''f''"
    by (simp add: no_blocks_def stat_def block_file_path_def)
  from partial_write_makes_full_block
         [where fname = "''f''" and ?fs0.0 = "\<lparr>files = Map.empty, dirs = {''.''}\<rparr>"
            and bf = "Some \<lparr>filename = ''f''\<rparr>"
            and ?fs1.0 = "\<lparr>files = Map.empty, dirs = {''f.blocks'', ''.''}\<rparr>"
            and hello = "[72, 101, 108, 108, 111, 44, 32, 87, 111, 114, 108, 100, 33]"
            and out = "replicate 50 7", THEN conjunct2, THEN conjunct2]
    nb block_open_example
  have fresh: "block_open \<lparr>files = Map.empty, dirs = {''.''}\<rparr> ''f''
     = (0, Some \<lparr>filename = ''f''\<rparr>, \<lparr>files = Map.empty, dirs = {''f.blocks'', ''.''}\<rparr>) \<and>
   (\<exists>fs2. block_write \<lparr>files = Map.empty, dirs = {''f.blocks'', ''.''}\<rparr> (Some \<lparr>filename = ''f''\<rparr>)
            (Some [72, 101, 108, 108, 111, 44, 32, 87, 111, 114, 108, 100, 33]) 13 0 = (13, fs2) \<and>
          block_file_size fs2 (Some \<lparr>filename = ''f''\<rparr>) = 4096 \<and>
          block_read fs2 (Some \<lparr>filename = ''f''\<rparr>) (Some (replicate 50 7)) 50 0
            = (50, Some ([72, 101, 108, 108, 111, 44, 32, 87, 111, 114, 108, 100, 33] @ replicate 37 0)))"
    by auto
  from short fresh show ?thesis by blast
qed

section \<open>The frame of a write\<close>

lemma same_cell_vbyte: "same_cell q p \<Longrightarrow> vbyte fs f q = vbyte fs f p"
  by (simp add: same_cell_def vbyte_zero_padded)

lemma same_cell_below:
  assumes "same_cell q p" and "q < 2 ^ 44" and "p < 2 ^ 44"
  shows "q = p"
proof -
  from assms(2,3) have lt: "q div BLOCK_SIZE < 2 ^ 32" "p div BLOCK_SIZE < 2 ^ 32" by simp_all
  from assms(1) have "int (q div BLOCK_SIZE) mod 2 ^ 32 = int (p div BLOCK_SIZE) mod 2 ^ 32"
    and m: "q mod BLOCK_SIZE = p mod BLOCK_SIZE"
    by (simp_all add: same_cell_def c_int_eq_iff)
  with lt have "int (q div BLOCK_SIZE) = int (p div BLOCK_SIZE)" by simp
  then have "q div BLOCK_SIZE = p div BLOCK_SIZE" by simp
  with m show ?thesis by (metis div_mult_mod_eq)
qed

text \<open>
  The frame of a write. A write that does not fail leaves the byte of every position
  unchanged that shares its cell with no position written. Below \<open>2^44\<close> (block indices
  below \<open>2^32\<close>) no two positions share a cell, so there the bytes outside the range
  written are unchanged.
\<close>

lemma write_frame:
  assumes "0 \<le> sz" and "0 \<le> offset" and "nat sz \<le> length b"
    and "block_write fs (Some h) (Some b) sz offset = (r, fs')" and "r \<noteq> - 1"
    and "\<forall>p. nat offset \<le> p \<and> p < nat offset + nat sz \<longrightarrow> \<not> same_cell q p"
  shows "vbyte fs' (filename h) q = vbyte fs (filename h) q"
proof -
  from assms(1,2,4) have wl: "write_loop fs (filename h) b 0 (nat sz) (nat offset) 0 = (r, fs')"
    by (simp add: block_write_def)
  from assms(3,6) show ?thesis by (intro write_loop_frame [OF wl assms(5)]) simp_all
qed

lemma write_frame_below:
  assumes "0 \<le> sz" and "0 \<le> offset" and "nat sz \<le> length b"
    and "block_write fs (Some h) (Some b) sz offset = (r, fs')" and "r \<noteq> - 1"
    and "offset + sz \<le> 2 ^ 44" and "q < 2 ^ 44" and "int q < offset \<or> offset + sz \<le> int q"
  shows "vbyte fs' (filename h) q = vbyte fs (filename h) q"
proof (rule write_frame [OF assms(1-5)], intro allI impI notI)
  fix p assume p: "nat offset \<le> p \<and> p < nat offset + nat sz" and sc: "same_cell q p"
  from p assms(1,2,6) have "int p < 2 ^ 44" by linarith
  then have "p < 2 ^ 44" by simp
  from same_cell_below [OF sc assms(7) this] p assms(1,2,8) show False by linarith
qed

text \<open>
  Neighbour isolation inside one block: on a virtual file without block files, after 4
  bytes are written at offset 100 and 4 bytes at offset 200, the bytes 104 to 107 read as
  zero.
\<close>

lemma neighbour_isolation:
  assumes "length (filename h) \<le> 1003" and "no_blocks fs1 (filename h)"
    and "filename h @ ''.blocks'' \<in> dirs fs1"
    and "length a = 4" and "length c = 4" and "4 \<le> length out"
  shows "\<exists>fs2 fs3. block_write fs1 (Some h) (Some a) 4 100 = (4, fs2) \<and>
           block_write fs2 (Some h) (Some c) 4 200 = (4, fs3) \<and>
           block_read fs3 (Some h) (Some out) 4 104 = (4, Some (replicate 4 0 @ drop 4 out))"
proof -
  let ?f = "filename h"
  define fs2 where "fs2 = snd (block_write fs1 (Some h) (Some a) 4 100)"
  define fs3 where "fs3 = snd (block_write fs2 (Some h) (Some c) 4 200)"
  have "fst (block_write fs1 (Some h) (Some a) 4 100) = 4"
    using assms no_blocks_dirs [OF assms(2)] by (intro block_write_succeeds) simp_all
  then have w1: "block_write fs1 (Some h) (Some a) 4 100 = (4, fs2)"
    by (simp add: fs2_def prod_eq_iff)
  then have "write_loop fs1 ?f a 0 4 100 0 = (4, fs2)" by (simp add: block_write_def)
  from write_loop_frame_files [OF this] have d2: "dirs fs2 = dirs fs1" by simp
  have "fst (block_write fs2 (Some h) (Some c) 4 200) = 4"
    using assms no_blocks_dirs [OF assms(2)] d2 by (intro block_write_succeeds) simp_all
  then have w2: "block_write fs2 (Some h) (Some c) 4 200 = (4, fs3)"
    by (simp add: fs3_def prod_eq_iff)
  have z: "vbyte fs3 ?f q = 0" if "104 \<le> q" "q < 108" for q
  proof -
    have "vbyte fs3 ?f q = vbyte fs2 ?f q"
      using that assms(5) by (intro write_frame_below [OF _ _ _ w2]) simp_all
    also have "\<dots> = vbyte fs1 ?f q"
      using that assms(4) by (intro write_frame_below [OF _ _ _ w1]) simp_all
    finally show ?thesis by (simp add: no_blocks_vbyte [OF assms(2)])
  qed
  have fits: "\<forall>p. nat 104 \<le> p \<and> p < nat 104 + nat 4 \<longrightarrow>
           fst (get_block_path ?f (c_int (int (p div BLOCK_SIZE)))) = 0"
  proof (intro allI impI)
    fix p assume "nat 104 \<le> p \<and> p < nat 104 + nat 4"
    then have "p < 4096000000" by simp
    from small_block_path(1) [OF assms(1) this]
    show "fst (get_block_path ?f (c_int (int (p div BLOCK_SIZE)))) = 0" by simp
  qed
  have "map (vbyte fs3 ?f) [104 ..< 108] = map (\<lambda>p. 0) [104 ..< 108]"
    by (rule map_cong [OF refl]) (simp add: z del: upt_rec_numeral)
  then have "map (vbyte fs3 ?f) [104 ..< 108] = replicate 4 0"
    by (simp add: map_replicate_const del: upt_rec_numeral)
  with block_read_eq [OF _ _ _ fits, of out fs3] assms(6)
  have "block_read fs3 (Some h) (Some out) 4 104 = (4, Some (replicate 4 0 @ drop 4 out))"
    by (simp del: upt_rec_numeral)
  with w1 w2 show ?thesis by blast
qed

lemma c_int_0: "c_int 0 = 0"
  by (simp add: c_int_def)

lemma c_int_2_32: "c_int 4294967296 = 0"
  using c_int_eq_iff [of 4294967296 0] by (simp add: c_int_0)

lemma same_cell_2_44: "same_cell 0 17592186044416"
  by (simp add: same_cell_def c_int_2_32 c_int_0)

text \<open>
  C7 at an offset of \<open>2^44\<close>. The block index \<open>2^32\<close> of that offset becomes 0 when it
  is converted to \<^verbatim>\<open>int\<close>, so the write goes to block file 0: the byte at position 0,
  far outside the range written, reads 0 before the write and 255 after it.
\<close>

theorem write_at_2_44_changes_position_0:
  "block_read \<lparr>files = Map.empty, dirs = {''f.blocks''}\<rparr> (Some \<lparr>filename = ''f''\<rparr>) (Some [7]) 1 0
     = (1, Some [0]) \<and>
   fst (block_write \<lparr>files = Map.empty, dirs = {''f.blocks''}\<rparr> (Some \<lparr>filename = ''f''\<rparr>)
          (Some [255]) 1 17592186044416) = 1 \<and>
   block_read (snd (block_write \<lparr>files = Map.empty, dirs = {''f.blocks''}\<rparr> (Some \<lparr>filename = ''f''\<rparr>)
          (Some [255]) 1 17592186044416)) (Some \<lparr>filename = ''f''\<rparr>) (Some [7]) 1 0
     = (1, Some [255])"
proof -
  let ?F = "\<lparr>files = Map.empty, dirs = {''f.blocks''}\<rparr>"
  let ?h = "\<lparr>filename = ''f''\<rparr>"
  let ?w = "block_write ?F (Some ?h) (Some [255]) 1 17592186044416"
  have fits0: "\<forall>p. nat 0 \<le> p \<and> p < nat 0 + nat 1 \<longrightarrow>
           fst (get_block_path (filename ?h) (c_int (int (p div BLOCK_SIZE)))) = 0"
    by (auto simp: c_int_0 get_block_path_f_0)
  have before: "block_read ?F (Some ?h) (Some [7]) 1 0 = (1, Some [0])"
    using block_read_eq [OF _ _ _ fits0, of "[7]" ?F] no_blocks_vbyte [OF no_blocks_example]
    by simp
  have "fst (write_loop ?F ''f'' [255] 0 1 17592186044416 0) = 0 + int 1"
  proof (rule write_loop_succeeds, intro allI impI)
    fix p :: nat assume "17592186044416 \<le> p \<and> p < 17592186044416 + 1"
    then have "p = 17592186044416" by simp
    then show "fst (get_block_path ''f'' (c_int (int (p div BLOCK_SIZE)))) = 0 \<and>
        block_file_path ''f'' (c_int (int (p div BLOCK_SIZE))) \<notin> dirs ?F"
      by (simp add: c_int_2_32 get_block_path_f_0 block_file_path_def)
  qed simp_all
  then have w1: "fst ?w = 1" by (simp add: block_write_def)
  then have wl: "write_loop ?F ''f'' [255] 0 1 17592186044416 0 = (1, snd ?w)"
    by (simp add: block_write_def prod_eq_iff)
  have "vbyte (snd ?w) ''f'' 17592186044416 = [255] ! (0 + (17592186044416 - 17592186044416))"
    by (rule write_loop_update [OF wl]) simp_all
  then have "vbyte (snd ?w) ''f'' 0 = 255"
    using same_cell_vbyte [OF same_cell_2_44, of "snd ?w" "''f''"] by simp
  then have after: "block_read (snd ?w) (Some ?h) (Some [7]) 1 0 = (1, Some [255])"
    using block_read_eq [OF _ _ _ fits0, of "[7]" "snd ?w"] by simp
  from before w1 after show ?thesis by blast
qed

section \<open>The size scan\<close>

lemma Max_insert_0:
  assumes "finite S" and "\<forall>x \<in> S. (0::int) \<le> x"
  shows "Max (insert 0 S) = (if S = {} then 0 else Max S)"
proof (cases "S = {}")
  case True
  then show ?thesis by simp
next
  case False
  with assms(1) have "Max S \<in> S" by (rule Max_in)
  with assms(2) have "0 \<le> Max S" by blast
  with False assms(1) show ?thesis by simp
qed

text \<open>
  C3, as the code has it. When the block paths fit into \<^verbatim>\<open>MAX_PATH_LEN\<close> (a file
  name of at most 1003 characters), \<^verbatim>\<open>block_file_size\<close> is the maximum, over the block
  indices from 0 to 9999 at which \<^verbatim>\<open>stat\<close> finds an entry, of the index times 4096
  plus the length of the entry capped at 4096, and 0 when there is no such entry. Entries
  with an index of 10000 or more are not looked at. With a longer file name the result
  is \<open>-1\<close>.
\<close>

theorem block_file_size_scans_10000_blocks:
  "(length (filename h) \<le> 1003 \<longrightarrow>
      block_file_size fs (Some h) =
        (let S = {k * 4096 + int (min n BLOCK_SIZE) | k n.
                    0 \<le> k \<and> k < 10000 \<and> stat fs (block_file_path (filename h) k) = Some n}
         in if S = {} then 0 else Max S)) \<and>
   (1003 < length (filename h) \<longrightarrow> block_file_size fs (Some h) = - 1)"
proof (intro conjI impI)
  let ?f = "filename h"
  let ?S = "{k * 4096 + int (min n BLOCK_SIZE) | k n.
               0 \<le> k \<and> k < 10000 \<and> stat fs (block_file_path ?f k) = Some n}"
  let ?T = "block_end fs ?f ` {0 ..< 10000}"
  assume len: "length ?f \<le> 1003"
  have ST: "?S \<subseteq> ?T"
  proof
    fix x assume "x \<in> ?S"
    then obtain k n where x: "x = k * 4096 + int (min n BLOCK_SIZE)" and k: "0 \<le> k" "k < 10000"
      and st: "stat fs (block_file_path ?f k) = Some n" by blast
    from x st have "x = block_end fs ?f k" by (simp add: block_end_def)
    with k show "x \<in> ?T" by auto
  qed
  have TS: "?T \<subseteq> insert 0 ?S"
  proof
    fix x assume "x \<in> ?T"
    then obtain k where k: "0 \<le> k" "k < 10000" and x: "x = block_end fs ?f k" by auto
    show "x \<in> insert 0 ?S"
    proof (cases "stat fs (block_file_path ?f k)")
      case None
      with x show ?thesis by (simp add: block_end_def)
    next
      case (Some n)
      with x have "x = k * 4096 + int (min n BLOCK_SIZE)" by (simp add: block_end_def)
      with k Some show ?thesis by blast
    qed
  qed
  have fin: "finite ?S" using ST by (rule finite_subset) simp
  have pos: "\<forall>x \<in> ?S. 0 \<le> x" by auto
  from ST TS have "insert 0 ?T = insert 0 ?S" by blast
  then have "Max (insert 0 ?T) = Max (insert 0 ?S)" by simp
  also have "\<dots> = (if ?S = {} then 0 else Max ?S)" using fin pos by (rule Max_insert_0)
  finally show "block_file_size fs (Some h) = (let S = ?S in if S = {} then 0 else Max S)"
    using len by (simp only: block_file_size_eq Let_def)
next
  assume "1003 < length (filename h)"
  then show "block_file_size fs (Some h) = - 1"
    by (simp add: block_file_size_def size_loop_path_too_long)
qed

theorem block_file_size_scans_10000_blocks_witness:
  "length (filename \<lparr>filename = ''f''\<rparr>) \<le> 1003 \<and>
   block_file_size \<lparr>files = Map.empty, dirs = {''f.blocks''}\<rparr> (Some \<lparr>filename = ''f''\<rparr>) = 0"
proof -
  have "\<And>k. stat \<lparr>files = Map.empty, dirs = {''f.blocks''}\<rparr> (block_file_path ''f'' k) = None"
    by (simp add: stat_def block_file_path_def)
  with block_file_size_scans_10000_blocks
         [of "\<lparr>filename = ''f''\<rparr>" "\<lparr>files = Map.empty, dirs = {''f.blocks''}\<rparr>"]
  show ?thesis by simp
qed

lemma c_int_10000: "c_int 10000 = 10000"
  by (rule c_int_id) simp_all

text \<open>
  C3 as stated fails beyond the scan: after one byte is written at offset 40960000, block
  file 10000 exists with 4096 bytes, so the logical size of the specification is 40964096,
  and \<^verbatim>\<open>block_file_size\<close> returns 0.
\<close>

theorem block_file_size_counterexample:
  "fst (block_write \<lparr>files = Map.empty, dirs = {''f.blocks''}\<rparr> (Some \<lparr>filename = ''f''\<rparr>)
          (Some [1]) 1 40960000) = 1 \<and>
   block_file_size (snd (block_write \<lparr>files = Map.empty, dirs = {''f.blocks''}\<rparr>
          (Some \<lparr>filename = ''f''\<rparr>) (Some [1]) 1 40960000)) (Some \<lparr>filename = ''f''\<rparr>) = 0 \<and>
   logical_size (snd (block_write \<lparr>files = Map.empty, dirs = {''f.blocks''}\<rparr>
          (Some \<lparr>filename = ''f''\<rparr>) (Some [1]) 1 40960000)) ''f'' = 40964096"
proof -
  let ?F = "\<lparr>files = Map.empty, dirs = {''f.blocks''}\<rparr>"
  let ?h = "\<lparr>filename = ''f''\<rparr>"
  let ?w = "block_write ?F (Some ?h) (Some [1]) 1 40960000"
  have w1: "fst ?w = 1"
    by (rule block_write_succeeds) (simp_all add: block_file_path_def)
  then have wl: "write_loop ?F ''f'' [1] 0 1 40960000 0 = (1, snd ?w)"
    by (simp add: block_write_def prod_eq_iff)
  have blk: "c_int (int (p div BLOCK_SIZE)) = 10000" if "40960000 \<le> p" "p < 40960000 + 1" for p
  proof -
    from that have "p = 40960000" by simp
    then show ?thesis by (simp add: c_int_10000)
  qed
  have "\<exists>c. files (snd ?w) (block_file_path ''f'' (c_int (int (40960000 div BLOCK_SIZE)))) = Some c \<and>
            length c = BLOCK_SIZE"
    by (intro write_loop_full_blocks [OF wl] disjI2 exI [of _ 40960000]) simp_all
  then obtain c where c: "files (snd ?w) (block_file_path ''f'' 10000) = Some c" "length c = BLOCK_SIZE"
    by (auto simp: c_int_10000)
  have fr: "dirs (snd ?w) = dirs ?F"
    "\<And>P. P \<noteq> block_file_path ''f'' 10000 \<Longrightarrow> files (snd ?w) P = files ?F P"
    using write_loop_frame_files [OF wl] by (auto simp: blk)
  have other: "files (snd ?w) (block_file_path ''f'' k) = None" if "k \<noteq> 10000" for k
  proof -
    from that have "block_file_path ''f'' k \<noteq> block_file_path ''f'' 10000"
      using block_file_path_inj by blast
    with fr(2) show ?thesis by simp
  qed
  have be: "block_end (snd ?w) ''f'' k = 0" if "k < 10000" for k
    using other [of k] that fr(1) by (simp add: block_end_def stat_def block_file_path_def)
  have "block_end (snd ?w) ''f'' ` {0 ..< 10000} = {0}"
    using be by (auto simp: image_def intro!: exI [of _ 0])
  then have size: "block_file_size (snd ?w) (Some ?h) = 0" by (simp add: block_file_size_eq)
  have "{k * int BLOCK_SIZE + int (min (length c') BLOCK_SIZE) | k c'.
          0 \<le> k \<and> files (snd ?w) (block_file_path ''f'' k) = Some c'} = {40964096}"
  proof (intro set_eqI iffI)
    fix x assume "x \<in> {k * int BLOCK_SIZE + int (min (length c') BLOCK_SIZE) | k c'.
          0 \<le> k \<and> files (snd ?w) (block_file_path ''f'' k) = Some c'}"
    then obtain k c' where x: "x = k * int BLOCK_SIZE + int (min (length c') BLOCK_SIZE)"
      and f: "files (snd ?w) (block_file_path ''f'' k) = Some c'" by blast
    from f other [of k] have "k = 10000" by auto
    with f c x show "x \<in> {40964096}" by simp
  next
    fix x :: int assume "x \<in> {40964096}"
    then have "x = 10000 * int BLOCK_SIZE + int (min (length c) BLOCK_SIZE)" using c(2) by simp
    with c(1) show "x \<in> {k * int BLOCK_SIZE + int (min (length c') BLOCK_SIZE) | k c'.
          0 \<le> k \<and> files (snd ?w) (block_file_path ''f'' k) = Some c'}"
      unfolding mem_Collect_eq by (intro exI [of _ 10000] exI [of _ c]) simp
  qed
  then have "logical_size (snd ?w) ''f'' = 40964096" by (simp add: logical_size_def)
  with w1 size show ?thesis by blast
qed

section \<open>The deletion loop of truncate\<close>

lemma unlink_Inr: "unlink fs p = Inr fs' \<Longrightarrow> fs' = fs\<lparr>files := (files fs)(p := None)\<rparr>"
  by (auto simp: unlink_def split: option.splits if_splits)

lemma unlink_Inl: "unlink fs p = Inl e \<Longrightarrow> files fs p = None \<and> (e = ENOENT \<longleftrightarrow> p \<notin> dirs fs)"
  by (auto simp: unlink_def split: option.splits if_splits)

lemma unlink_loop_step:
  assumes "n < 10000" and "get_block_path f n = (0, p)"
  shows "unlink_loop fs f n =
    (case unlink fs p of
       Inr fs1 \<Rightarrow> unlink_loop fs1 f (n + 1)
     | Inl e \<Rightarrow> if e \<noteq> ENOENT then (False, fs) else unlink_loop fs f (n + 1))"
  using assms by (subst unlink_loop.simps) simp

lemma unlink_loop_stop: "\<not> n < 10000 \<Longrightarrow> unlink_loop fs f n = (False, fs)"
  by (subst unlink_loop.simps) simp

lemma unlink_loop_too_long:
  "n < 10000 \<Longrightarrow> fst (get_block_path f n) \<noteq> 0 \<Longrightarrow> unlink_loop fs f n = (True, fs)"
  by (subst unlink_loop.simps) (auto split: prod.splits)

lemma unlink_loop_frame:
  "unlink_loop fs f n = (ret, fs') \<Longrightarrow>
   dirs fs' = dirs fs \<and>
   (\<forall>P. files fs' P = files fs P \<or>
        (files fs' P = None \<and> (\<exists>k. n \<le> k \<and> k < 10000 \<and> P = block_file_path f k)))"
proof (induction fs f n rule: unlink_loop.induct)
  case (1 fs f n)
  show ?case
  proof (cases "n < 10000")
    case False
    with "1.prems" show ?thesis by (simp add: unlink_loop_stop)
  next
    case True
    obtain rc p where gp: "get_block_path f n = (rc, p)" by (cases "get_block_path f n")
    show ?thesis
    proof (cases "rc = 0")
      case False
      with gp True "1.prems" show ?thesis by (simp add: unlink_loop_too_long)
    next
      case rc: True
      with gp have p: "p = block_file_path f n" by (simp add: get_block_path_ok)
      note step = unlink_loop_step [OF True gp [unfolded rc], of fs]
      have widen: "\<exists>k. n \<le> k \<and> k < 10000 \<and> P = block_file_path f k"
        if "\<exists>k. n + 1 \<le> k \<and> k < 10000 \<and> P = block_file_path f k" for P
      proof -
        from that obtain k where "n + 1 \<le> k" "k < 10000" "P = block_file_path f k" by blast
        then have "n \<le> k \<and> k < 10000 \<and> P = block_file_path f k" by simp
        then show ?thesis by blast
      qed
      show ?thesis
      proof (cases "unlink fs p")
        case (Inr fs1)
        with step "1.prems" have l: "unlink_loop fs1 f (n + 1) = (ret, fs')" by simp
        note fs1 = unlink_Inr [OF Inr]
        from "1.IH"(2) [OF True gp [symmetric] _ Inr l] rc
        have ih: "dirs fs' = dirs fs1"
          "\<And>P. files fs' P = files fs1 P \<or>
             (files fs' P = None \<and> (\<exists>k. n + 1 \<le> k \<and> k < 10000 \<and> P = block_file_path f k))"
          by simp_all
        have "files fs' P = files fs P \<or>
             (files fs' P = None \<and> (\<exists>k. n \<le> k \<and> k < 10000 \<and> P = block_file_path f k))" for P
        proof (cases "P = p")
          case True
          with ih(2) [of P] fs1 have "files fs' P = None" by auto
          with True p \<open>n < 10000\<close> show ?thesis by auto
        next
          case False
          with ih(2) [of P] fs1 widen [of P] show ?thesis by auto
        qed
        with ih(1) fs1 show ?thesis by simp
      next
        case (Inl e)
        show ?thesis
        proof (cases "e = ENOENT")
          case False
          with step Inl "1.prems" show ?thesis by simp
        next
          case e: True
          with step Inl "1.prems" have l: "unlink_loop fs f (n + 1) = (ret, fs')" by simp
          from "1.IH"(1) [OF True gp [symmetric] _ Inl _ l] rc e
          have ih: "dirs fs' = dirs fs"
            "\<And>P. files fs' P = files fs P \<or>
               (files fs' P = None \<and> (\<exists>k. n + 1 \<le> k \<and> k < 10000 \<and> P = block_file_path f k))"
            by simp_all
          have "files fs' P = files fs P \<or>
             (files fs' P = None \<and> (\<exists>k. n \<le> k \<and> k < 10000 \<and> P = block_file_path f k))" for P
            using ih(2) [of P] widen [of P] by auto
          with ih(1) show ?thesis by simp
        qed
      qed
    qed
  qed
qed

lemma unlink_loop_all:
  "0 \<le> n \<Longrightarrow> length f \<le> 1003 \<Longrightarrow>
   \<forall>k. n \<le> k \<and> k < 10000 \<longrightarrow> block_file_path f k \<notin> dirs fs \<Longrightarrow>
   unlink_loop fs f n = (ret, fs') \<Longrightarrow>
   \<not> ret \<and> (\<forall>k. n \<le> k \<and> k < 10000 \<longrightarrow> files fs' (block_file_path f k) = None)"
proof (induction fs f n rule: unlink_loop.induct)
  case (1 fs f n)
  note n0 = "1.prems"(1) and len = "1.prems"(2) and nodir = "1.prems"(3) and l = "1.prems"(4)
  show ?case
  proof (cases "n < 10000")
    case False
    with l show ?thesis by (auto simp: unlink_loop_stop)
  next
    case True
    let ?p = "block_file_path f n"
    have gp: "get_block_path f n = (0, ?p)" using n0 True len by (intro block_path_small) simp_all
    note step = unlink_loop_step [OF True gp, of fs]
    have rest: "\<not> ret \<and> (\<forall>k. n + 1 \<le> k \<and> k < 10000 \<longrightarrow> files fs' (block_file_path f k) = None)
                \<and> files fs' ?p = None"
    proof (cases "unlink fs ?p")
      case (Inr fs1)
      with step l have l1: "unlink_loop fs1 f (n + 1) = (ret, fs')" by simp
      note fs1 = unlink_Inr [OF Inr]
      have "\<not> ret \<and> (\<forall>k. n + 1 \<le> k \<and> k < 10000 \<longrightarrow> files fs' (block_file_path f k) = None)"
        using n0 len nodir fs1 by (intro "1.IH"(2) [OF True gp [symmetric] _ Inr _ _ _ l1]) auto
      moreover have "files fs' ?p = None"
        using unlink_loop_frame [OF l1] fs1 by (auto dest: spec [of _ ?p])
      ultimately show ?thesis by simp
    next
      case (Inl e)
      from unlink_Inl [OF Inl] nodir n0 True have e: "e = ENOENT" and none: "files fs ?p = None"
        by auto
      with step Inl l have l1: "unlink_loop fs f (n + 1) = (ret, fs')" by simp
      have "\<not> ret \<and> (\<forall>k. n + 1 \<le> k \<and> k < 10000 \<longrightarrow> files fs' (block_file_path f k) = None)"
        using n0 len nodir e by (intro "1.IH"(1) [OF True gp [symmetric] _ Inl _ _ _ _ l1]) auto
      moreover have "files fs' ?p = None"
        using unlink_loop_frame [OF l1] none by (auto dest: spec [of _ ?p])
      ultimately show ?thesis by simp
    qed
    have "files fs' (block_file_path f k) = None" if "n \<le> k" "k < 10000" for k
    proof (cases "k = n")
      case True
      with rest show ?thesis by simp
    next
      case False
      with that rest show ?thesis by simp
    qed
    with rest show ?thesis by simp
  qed
qed

section \<open>Truncate\<close>

lemma truncate_indices:
  assumes "0 \<le> sz" and "sz < 4096000000"
  shows "c_int ((sz + 4095) div 4096) = (sz + 4095) div 4096"
    and "c_int ((sz - 1) div 4096) = (sz - 1) div 4096"
    and "nat (c_int (sz mod 4096)) = nat (sz mod 4096)"
    and "(sz + 4095) div 4096 = (sz - 1) div 4096 + 1"
    and "- 1 \<le> (sz - 1) div 4096" and "(sz - 1) div 4096 < 1000000"
proof -
  have "(sz + 4095) div 4096 = (sz - 1 + 4096) div 4096" by simp
  also have "\<dots> = (sz - 1) div 4096 + 1" by (simp only: div_add_self2)
  finally show e: "(sz + 4095) div 4096 = (sz - 1) div 4096 + 1" .
  from assms show lo: "- 1 \<le> (sz - 1) div 4096" by linarith
  from assms show hi: "(sz - 1) div 4096 < 1000000" by linarith
  from lo hi show "c_int ((sz - 1) div 4096) = (sz - 1) div 4096"
    by (intro c_int_id) simp_all
  from lo hi e show "c_int ((sz + 4095) div 4096) = (sz + 4095) div 4096"
    by (simp add: c_int_id)
  have "0 \<le> sz mod 4096" "sz mod 4096 < 4096" by simp_all
  then have "c_int (sz mod 4096) = sz mod 4096" by (intro c_int_id) simp_all
  then show "nat (c_int (sz mod 4096)) = nat (sz mod 4096)" by simp
qed

lemma loaded_block_bytes:
  "(case fopen_rb fs (block_file_path f k) of
      Some existing \<Rightarrow> memcpy (memset (replicate BLOCK_SIZE 0) 0 0 BLOCK_SIZE) 0 (fread BLOCK_SIZE existing)
    | None \<Rightarrow> memset (replicate BLOCK_SIZE 0) 0 0 BLOCK_SIZE)
   = zero_padded (block_bytes fs f k)"
  by (simp only: loaded_block block_bytes_def)

lemma block_truncate_unfold:
  "0 \<le> sz \<Longrightarrow> block_truncate fs (Some h) sz =
     (case unlink_loop fs (filename h) (c_int ((sz + 4095) div 4096)) of (returned, fs1) \<Rightarrow>
        if returned then (- 1, fs1)
        else if sz mod 4096 \<noteq> 0
        then (case get_block_path (filename h) (c_int ((sz - 1) div 4096)) of (rc, block_path) \<Rightarrow>
                (case fopen_wb fs1 block_path of
                   Some fs2 \<Rightarrow>
                     (0, snd (fwrite fs2 block_path
                        (case fopen_rb fs1 block_path of
                           Some existing \<Rightarrow>
                             memcpy (memset (replicate BLOCK_SIZE 0) 0 0 BLOCK_SIZE) 0 (fread BLOCK_SIZE existing)
                         | None \<Rightarrow> memset (replicate BLOCK_SIZE 0) 0 0 BLOCK_SIZE)
                        (nat (c_int (sz mod 4096)))))
                 | None \<Rightarrow> (0, fs1)))
        else (0, fs1))"
proof -
  assume "0 \<le> sz"
  moreover have "sz mod 4096 \<noteq> 0 \<Longrightarrow> sz \<noteq> 0" by auto
  ultimately show ?thesis
    by (auto simp: block_truncate_def Let_def add.commute split: prod.splits option.splits)
qed

lemma block_truncate_effect:
  assumes "0 \<le> sz" and "sz < 4096000000" and "length (filename h) \<le> 1003"
    and "\<forall>k. (sz + 4095) div 4096 \<le> k \<and> k < 10000 \<longrightarrow> block_file_path (filename h) k \<notin> dirs fs"
  shows "\<exists>fs'. block_truncate fs (Some h) sz = (0, fs') \<and> dirs fs' = dirs fs \<and>
    (\<forall>k. (sz + 4095) div 4096 \<le> k \<and> k < 10000 \<longrightarrow> files fs' (block_file_path (filename h) k) = None) \<and>
    (\<forall>P. (\<forall>k. (sz + 4095) div 4096 \<le> k \<and> k < 10000 \<longrightarrow> P \<noteq> block_file_path (filename h) k) \<and>
         (sz mod 4096 \<noteq> 0 \<longrightarrow> P \<noteq> block_file_path (filename h) ((sz - 1) div 4096))
         \<longrightarrow> files fs' P = files fs P) \<and>
    (sz mod 4096 \<noteq> 0 \<longrightarrow>
       files fs' (block_file_path (filename h) ((sz - 1) div 4096)) =
         (if fopen_wb fs (block_file_path (filename h) ((sz - 1) div 4096)) = None
          then files fs (block_file_path (filename h) ((sz - 1) div 4096))
          else Some (take (nat (sz mod 4096))
                 (zero_padded (block_bytes fs (filename h) ((sz - 1) div 4096))))))"
proof -
  let ?f = "filename h"
  let ?lb = "(sz + 4095) div 4096"
  let ?b = "(sz - 1) div 4096"
  let ?B = "block_file_path ?f ?b"
  let ?m = "nat (sz mod 4096)"
  note idx = truncate_indices [OF assms(1,2)]
  obtain ret fs1 where ul: "unlink_loop fs ?f ?lb = (ret, fs1)" by (cases "unlink_loop fs ?f ?lb")
  have lb0: "0 \<le> ?lb" using idx(4,5) by simp
  from unlink_loop_all [OF lb0 assms(3,4) ul]
  have ret: "\<not> ret" and del: "\<forall>k. ?lb \<le> k \<and> k < 10000 \<longrightarrow> files fs1 (block_file_path ?f k) = None"
    by simp_all
  from unlink_loop_frame [OF ul]
  have d1: "dirs fs1 = dirs fs"
    and fr1: "\<And>P. files fs1 P = files fs P \<or>
        (files fs1 P = None \<and> (\<exists>k. ?lb \<le> k \<and> k < 10000 \<and> P = block_file_path ?f k))"
    by simp_all
  have keep: "files fs1 P = files fs P"
    if "\<forall>k. ?lb \<le> k \<and> k < 10000 \<longrightarrow> P \<noteq> block_file_path ?f k" for P
    using fr1 [of P] that by blast
  have Bkeep: "files fs1 ?B = files fs ?B"
  proof (rule keep, intro allI impI)
    fix k assume "?lb \<le> k \<and> k < 10000"
    with idx(4) have "k \<noteq> ?b" by simp
    then show "?B \<noteq> block_file_path ?f k" using block_file_path_inj by blast
  qed
  then have bb: "block_bytes fs1 ?f ?b = block_bytes fs ?f ?b" by (simp add: block_bytes_def)
  have ow: "fopen_wb fs1 ?B = None \<longleftrightarrow> fopen_wb fs ?B = None" by (simp add: fopen_wb_def d1)
  show ?thesis
  proof (cases "sz mod 4096 = 0")
    case True
    have "block_truncate fs (Some h) sz = (0, fs1)"
      unfolding block_truncate_unfold [OF assms(1)] idx(1) ul prod.case
      using ret True by simp
    with d1 del keep True show ?thesis by simp
  next
    case False
    with assms(1) have pos: "0 < sz" by (cases "sz = 0") simp_all
    with idx(5) have b0: "0 \<le> ?b" by simp
    have gp: "get_block_path ?f ?b = (0, ?B)" using b0 idx(6) assms(3) by (rule block_path_small)
    define fs' where "fs' = (case fopen_wb fs1 ?B of
        Some fs2 \<Rightarrow> snd (fwrite fs2 ?B (zero_padded (block_bytes fs ?f ?b)) ?m)
      | None \<Rightarrow> fs1)"
    have t: "block_truncate fs (Some h) sz = (0, fs')"
      unfolding block_truncate_unfold [OF assms(1)] idx(1) idx(2) idx(3) ul gp prod.case
        loaded_block_bytes bb fs'_def
      using ret False by (simp split: option.splits)
    have d': "dirs fs' = dirs fs"
      by (auto simp: fs'_def fopen_wb_def fwrite_def d1 split: option.splits if_splits)
    have other: "files fs' P = files fs1 P" if "P \<noteq> ?B" for P
      using that by (auto simp: fs'_def fopen_wb_def fwrite_def split: option.splits if_splits)
    have del': "\<forall>k. ?lb \<le> k \<and> k < 10000 \<longrightarrow> files fs' (block_file_path ?f k) = None"
    proof (intro allI impI)
      fix k assume k: "?lb \<le> k \<and> k < 10000"
      with idx(4) have "k \<noteq> ?b" by simp
      then have "block_file_path ?f k \<noteq> ?B" using block_file_path_inj by blast
      with other del k show "files fs' (block_file_path ?f k) = None" by simp
    qed
    have keep': "\<forall>P. (\<forall>k. ?lb \<le> k \<and> k < 10000 \<longrightarrow> P \<noteq> block_file_path ?f k) \<and>
         (sz mod 4096 \<noteq> 0 \<longrightarrow> P \<noteq> ?B) \<longrightarrow> files fs' P = files fs P"
      using other keep False by simp
    have m: "?m \<le> BLOCK_SIZE" by simp
    have B': "files fs' ?B = (if fopen_wb fs ?B = None then files fs ?B
          else Some (take ?m (zero_padded (block_bytes fs ?f ?b))))"
    proof (cases "fopen_wb fs1 ?B")
      case None
      with ow Bkeep show ?thesis by (simp add: fs'_def)
    next
      case (Some fs2)
      then have fs2: "fs2 = fs1\<lparr>files := (files fs1)(?B \<mapsto> [])\<rparr>"
        by (auto simp: fopen_wb_def split: if_splits)
      from Some ow have "fopen_wb fs ?B \<noteq> None" by simp
      with Some show ?thesis by (auto simp: fs'_def fs2 fwrite_def)
    qed
    from t d' del' keep' B' show ?thesis by blast
  qed
qed

text \<open>The state after one byte is written at offset 40960000 of a fresh virtual file.\<close>

lemma write_block_10000:
  "fst (block_write \<lparr>files = Map.empty, dirs = {''f.blocks''}\<rparr> (Some \<lparr>filename = ''f''\<rparr>)
          (Some [1]) 1 40960000) = 1"
  "dirs (snd (block_write \<lparr>files = Map.empty, dirs = {''f.blocks''}\<rparr> (Some \<lparr>filename = ''f''\<rparr>)
          (Some [1]) 1 40960000)) = {''f.blocks''}"
  "\<exists>c. files (snd (block_write \<lparr>files = Map.empty, dirs = {''f.blocks''}\<rparr> (Some \<lparr>filename = ''f''\<rparr>)
          (Some [1]) 1 40960000)) (block_file_path ''f'' 10000) = Some c \<and> length c = BLOCK_SIZE"
  "k \<noteq> 10000 \<Longrightarrow>
   files (snd (block_write \<lparr>files = Map.empty, dirs = {''f.blocks''}\<rparr> (Some \<lparr>filename = ''f''\<rparr>)
          (Some [1]) 1 40960000)) (block_file_path ''f'' k) = None"
proof -
  let ?F = "\<lparr>files = Map.empty, dirs = {''f.blocks''}\<rparr>"
  let ?h = "\<lparr>filename = ''f''\<rparr>"
  let ?w = "block_write ?F (Some ?h) (Some [1]) 1 40960000"
  show w1: "fst ?w = 1"
    by (rule block_write_succeeds) (simp_all add: block_file_path_def)
  then have wl: "write_loop ?F ''f'' [1] 0 1 40960000 0 = (1, snd ?w)"
    by (simp add: block_write_def prod_eq_iff)
  have blk: "c_int (int (p div BLOCK_SIZE)) = 10000" if "40960000 \<le> p" "p < 40960000 + 1" for p
  proof -
    from that have "p = 40960000" by simp
    then show ?thesis by (simp add: c_int_10000)
  qed
  have "\<exists>c. files (snd ?w) (block_file_path ''f'' (c_int (int (40960000 div BLOCK_SIZE)))) = Some c \<and>
            length c = BLOCK_SIZE"
    by (intro write_loop_full_blocks [OF wl] disjI2 exI [of _ 40960000]) simp_all
  then show "\<exists>c. files (snd ?w) (block_file_path ''f'' 10000) = Some c \<and> length c = BLOCK_SIZE"
    by (simp add: c_int_10000)
  have fr: "dirs (snd ?w) = dirs ?F"
    "\<And>P. P \<noteq> block_file_path ''f'' 10000 \<Longrightarrow> files (snd ?w) P = files ?F P"
    using write_loop_frame_files [OF wl] by (auto simp: blk)
  from fr(1) show "dirs (snd ?w) = {''f.blocks''}" by simp
  show "files (snd ?w) (block_file_path ''f'' k) = None" if "k \<noteq> 10000"
  proof -
    from that have "block_file_path ''f'' k \<noteq> block_file_path ''f'' 10000"
      using block_file_path_inj by blast
    with fr(2) show ?thesis by simp
  qed
qed

text \<open>
  C4, as the code has it. For a new size below 4096000000 and a file name of at most 1003
  characters (so that every block path fits), in a state where no directory sits at a block
  path from index \<open>ceil(sz / 4096)\<close> to 9999 (so that no deletion fails for a cause other
  than absence), \<^verbatim>\<open>block_truncate\<close> returns 0 and
  \<^item> no block file with an index from \<open>ceil(sz / 4096)\<close> to 9999 is left;
  \<^item> every other file, the boundary block apart, is as before: in particular block files
    with an index of 10000 or more stay;
  \<^item> when \<open>sz\<close> is not a multiple of 4096 and the boundary block file (index
    \<open>(sz - 1) div 4096\<close>) can be opened for writing, its content becomes the first
    \<open>sz mod 4096\<close> bytes of its old content padded with zeros, so its length is
    \<open>sz mod 4096\<close>; when it cannot be opened, it stays as it is;
  \<^item> when \<open>sz\<close> is a multiple of 4096 (0 included) nothing is rewritten.
\<close>

theorem truncate_deletes_and_cuts:
  assumes "0 \<le> sz" and "sz < 4096000000" and "length (filename h) \<le> 1003"
    and "\<forall>k. (sz + 4095) div 4096 \<le> k \<and> k < 10000 \<longrightarrow> block_file_path (filename h) k \<notin> dirs fs"
  shows "\<exists>fs'. block_truncate fs (Some h) sz = (0, fs') \<and> dirs fs' = dirs fs \<and>
    (\<forall>k. (sz + 4095) div 4096 \<le> k \<and> k < 10000 \<longrightarrow> files fs' (block_file_path (filename h) k) = None) \<and>
    (\<forall>P. (\<forall>k. (sz + 4095) div 4096 \<le> k \<and> k < 10000 \<longrightarrow> P \<noteq> block_file_path (filename h) k) \<and>
         (sz mod 4096 \<noteq> 0 \<longrightarrow> P \<noteq> block_file_path (filename h) ((sz - 1) div 4096))
         \<longrightarrow> files fs' P = files fs P) \<and>
    (sz mod 4096 \<noteq> 0 \<longrightarrow>
       files fs' (block_file_path (filename h) ((sz - 1) div 4096)) =
         (if fopen_wb fs (block_file_path (filename h) ((sz - 1) div 4096)) = None
          then files fs (block_file_path (filename h) ((sz - 1) div 4096))
          else Some (take (nat (sz mod 4096))
                 (zero_padded (block_bytes fs (filename h) ((sz - 1) div 4096))))))"
  using assms by (rule block_truncate_effect)

lemma fopen_wb_example:
  "fopen_wb \<lparr>files = Map.empty, dirs = {''f.blocks''}\<rparr> (block_file_path ''f'' 0) \<noteq> None"
  using parent_dir_block_file_path [of "''f''" 0]
  by (simp add: fopen_wb_def) (simp add: block_file_path_def)

theorem truncate_deletes_and_cuts_witness:
  "\<exists>fs'. block_truncate \<lparr>files = Map.empty, dirs = {''f.blocks''}\<rparr> (Some \<lparr>filename = ''f''\<rparr>) 5 = (0, fs') \<and>
         files fs' (block_file_path ''f'' 0) = Some (replicate 5 0)"
proof -
  have nodir: "\<forall>k. (5 + 4095) div 4096 \<le> k \<and> k < 10000 \<longrightarrow>
        block_file_path (filename \<lparr>filename = ''f''\<rparr>) k \<notin> dirs \<lparr>files = Map.empty, dirs = {''f.blocks''}\<rparr>"
    by (simp add: block_file_path_def)
  have old: "take 5 (zero_padded (block_bytes \<lparr>files = Map.empty, dirs = {''f.blocks''}\<rparr> ''f'' 0))
               = replicate 5 0"
    by (simp add: block_bytes_def zero_padded_def)
  from truncate_deletes_and_cuts [OF _ _ _ nodir] fopen_wb_example old
  show ?thesis by auto
qed

text \<open>
  C4 as stated fails beyond index 9999: after a write at offset 40960000 block file 10000
  exists, and truncating to size 0 returns 0 and leaves it in place.
\<close>

theorem truncate_counterexample:
  "fst (block_truncate
          (snd (block_write \<lparr>files = Map.empty, dirs = {''f.blocks''}\<rparr> (Some \<lparr>filename = ''f''\<rparr>)
                  (Some [1]) 1 40960000))
          (Some \<lparr>filename = ''f''\<rparr>) 0) = 0 \<and>
   files (snd (block_truncate
          (snd (block_write \<lparr>files = Map.empty, dirs = {''f.blocks''}\<rparr> (Some \<lparr>filename = ''f''\<rparr>)
                  (Some [1]) 1 40960000))
          (Some \<lparr>filename = ''f''\<rparr>) 0)) (block_file_path ''f'' 10000) \<noteq> None"
proof -
  let ?h = "\<lparr>filename = ''f''\<rparr>"
  let ?W = "snd (block_write \<lparr>files = Map.empty, dirs = {''f.blocks''}\<rparr> (Some ?h) (Some [1]) 1 40960000)"
  have nodir: "\<forall>k. (0 + 4095) div 4096 \<le> k \<and> k < 10000 \<longrightarrow> block_file_path (filename ?h) k \<notin> dirs ?W"
    by (simp add: write_block_10000(2) block_file_path_def)
  from block_truncate_effect [OF _ _ _ nodir] obtain fs' where
    t: "block_truncate ?W (Some ?h) 0 = (0, fs')" and
    keep: "\<forall>P. (\<forall>k. (0 + 4095) div 4096 \<le> k \<and> k < (10000::int) \<longrightarrow> P \<noteq> block_file_path (filename ?h) k) \<and>
         ((0::int) mod 4096 \<noteq> 0 \<longrightarrow> P \<noteq> block_file_path (filename ?h) ((0 - 1) div 4096))
         \<longrightarrow> files fs' P = files ?W P"
    by auto
  have "\<forall>k. (0 + 4095) div 4096 \<le> k \<and> k < (10000::int) \<longrightarrow>
          block_file_path ''f'' 10000 \<noteq> block_file_path (filename ?h) k"
    using block_file_path_inj [of "''f''" 10000] by auto
  with keep have "files fs' (block_file_path ''f'' 10000) = files ?W (block_file_path ''f'' 10000)"
    by simp
  with write_block_10000(3) t show ?thesis by auto
qed

lemma block_end_le_size:
  assumes "length (filename h) \<le> 1003" and "0 \<le> k" and "k < 10000"
  shows "block_end fs (filename h) k \<le> block_file_size fs (Some h)"
proof -
  have "block_end fs (filename h) k \<in> insert 0 (block_end fs (filename h) ` {0 ..< 10000})"
    using assms(2,3) by simp
  then have "block_end fs (filename h) k \<le> Max (insert 0 (block_end fs (filename h) ` {0 ..< 10000}))"
    by (intro Max_ge) simp_all
  with assms(1) show ?thesis by (simp add: block_file_size_eq)
qed

lemma stat_None: "stat fs p = None \<longleftrightarrow> files fs p = None \<and> p \<notin> dirs fs"
  by (auto simp: stat_def split: option.splits if_splits)

lemma pred_div:
  assumes "n mod 4096 \<noteq> 0"
  shows "(n - 1) div 4096 = n div (4096::int)"
proof -
  have r: "0 < n mod 4096" "n mod 4096 < 4096"
    using assms pos_mod_sign [of 4096 n] by simp_all
  have "n - 1 = (n mod 4096 - 1) + n div 4096 * 4096"
    using div_mult_mod_eq [of n 4096] by linarith
  then have "(n - 1) div 4096 = ((n mod 4096 - 1) + n div 4096 * 4096) div 4096" by (simp only:)
  also have "\<dots> = n div 4096 + (n mod 4096 - 1) div 4096"
    by (rule div_mult_self1) simp
  also have "(n mod 4096 - 1) div 4096 = 0" using r by (intro div_pos_pos_trivial) simp_all
  finally show ?thesis by simp
qed

lemma block_truncate_grows:
  assumes "0 < n" and "n < 40960000" and "n mod 4096 \<noteq> 0" and "length (filename h) \<le> 1003"
    and "block_file_size fs (Some h) < n"
    and "fopen_wb fs (block_file_path (filename h) ((n - 1) div 4096)) \<noteq> None"
  shows "\<exists>fs'. block_truncate fs (Some h) n = (0, fs') \<and> block_file_size fs' (Some h) = n"
proof -
  let ?f = "filename h"
  let ?lb = "(n + 4095) div 4096"
  let ?b = "(n - 1) div 4096"
  let ?B = "block_file_path ?f ?b"
  let ?m = "nat (n mod 4096)"
  have n0: "0 \<le> n" and n1: "n < 4096000000" using assms(1,2) by simp_all
  note idx = truncate_indices [OF n0 n1]
  have b: "0 \<le> ?b" "?b < 10000" using assms(1,2) by simp_all
  have bn: "?b * 4096 + n mod 4096 = n" using assms(3) by (simp add: pred_div)
  have lbn: "n \<le> ?lb * 4096"
  proof -
    have "n mod 4096 < 4096" by simp
    with bn idx(4) show ?thesis by simp
  qed
  have absent: "stat fs (block_file_path ?f k) = None" if k: "?lb \<le> k" "k < 10000" for k
  proof (rule ccontr)
    assume "stat fs (block_file_path ?f k) \<noteq> None"
    then obtain s where "stat fs (block_file_path ?f k) = Some s" by blast
    then have "k * 4096 \<le> block_end fs ?f k" by (simp add: block_end_def)
    moreover have "0 \<le> k" using k(1) idx(4) b(1) by simp
    then have "block_end fs ?f k \<le> block_file_size fs (Some h)"
      using assms(4) k(2) by (intro block_end_le_size) simp_all
    moreover have "?lb * 4096 \<le> k * 4096" using k(1) by simp
    ultimately show False using lbn assms(5) by linarith
  qed
  then have nodir: "\<forall>k. ?lb \<le> k \<and> k < 10000 \<longrightarrow> block_file_path ?f k \<notin> dirs fs"
    by (simp add: stat_None)
  from block_truncate_effect [OF n0 n1 assms(4) nodir] assms(3,6) obtain fs' where
    t: "block_truncate fs (Some h) n = (0, fs')" and d: "dirs fs' = dirs fs" and
    del: "\<forall>k. ?lb \<le> k \<and> k < 10000 \<longrightarrow> files fs' (block_file_path ?f k) = None" and
    keep: "\<forall>P. (\<forall>k. ?lb \<le> k \<and> k < 10000 \<longrightarrow> P \<noteq> block_file_path ?f k) \<and> P \<noteq> ?B
             \<longrightarrow> files fs' P = files fs P" and
    B: "files fs' ?B = Some (take ?m (zero_padded (block_bytes fs ?f ?b)))"
    by auto
  have "?B \<notin> dirs fs" using assms(6) by (auto simp: fopen_wb_def split: if_splits)
  have "length (take ?m (zero_padded (block_bytes fs ?f ?b))) = ?m"
    by (simp add: length_zero_padded)
  with B have "stat fs' ?B = Some ?m" by (simp add: stat_def)
  then have "block_end fs' ?f ?b = ?b * 4096 + int (min ?m BLOCK_SIZE)" by (simp add: block_end_def)
  also have "\<dots> = ?b * 4096 + n mod 4096" by simp
  finally have beb: "block_end fs' ?f ?b = n" using bn by simp
  have le: "block_end fs' ?f k \<le> n" if k: "0 \<le> k" "k < 10000" for k
  proof -
    consider "k = ?b" | "?lb \<le> k" | "k < ?b" using idx(4) by linarith
    then show ?thesis
    proof cases
      case 1
      with beb show ?thesis by simp
    next
      case 2
      with del k(2) have "files fs' (block_file_path ?f k) = None" by simp
      moreover from nodir 2 k(2) d have "block_file_path ?f k \<notin> dirs fs'" by simp
      ultimately have "block_end fs' ?f k = 0" by (simp add: block_end_def stat_def)
      with assms(1) show ?thesis by simp
    next
      case 3
      have "block_file_path ?f k \<noteq> ?B" using 3 block_file_path_inj by blast
      moreover have "\<forall>j. ?lb \<le> j \<and> j < 10000 \<longrightarrow> block_file_path ?f k \<noteq> block_file_path ?f j"
        using 3 idx(4) block_file_path_inj by (metis less_add_one not_less_iff_gr_or_eq order_less_le_trans)
      ultimately have "files fs' (block_file_path ?f k) = files fs (block_file_path ?f k)"
        using keep by simp
      with d have "block_end fs' ?f k = block_end fs ?f k" by (simp add: block_end_def stat_def)
      with block_end_le_size [OF assms(4) k, of fs] assms(5) show ?thesis by simp
    qed
  qed
  have "Max (insert 0 (block_end fs' ?f ` {0 ..< 10000})) = n"
  proof (rule Max_eqI)
    show "finite (insert 0 (block_end fs' ?f ` {0 ..< 10000}))" by simp
    show "y \<le> n" if "y \<in> insert 0 (block_end fs' ?f ` {0 ..< 10000})" for y
      using that le assms(1) by auto
    show "n \<in> insert 0 (block_end fs' ?f ` {0 ..< 10000})"
      using beb b by (intro insertI2 image_eqI [of _ _ ?b]) simp_all
  qed
  then have "block_file_size fs' (Some h) = n" using assms(4) by (simp add: block_file_size_eq)
  with t show ?thesis by blast
qed

text \<open>
  C10, as the code has it. Let \<open>n\<close> be a size that is not a multiple of 4096, with
  \<open>0 < n < 40960000\<close> (the boundary block is inside the scanned range), for a file name
  of at most 1003 characters. In every state whose size, as \<^verbatim>\<open>block_file_size\<close> reports
  it, is less than \<open>n\<close> and in which the boundary block file can be opened for writing,
  \<^verbatim>\<open>block_truncate\<close> returns 0 and the size afterwards is exactly \<open>n\<close>: the boundary
  block file is written with \<open>n mod 4096\<close> bytes, also when it did not exist before.
\<close>

theorem truncate_grows_size:
  assumes "0 < n" and "n < 40960000" and "n mod 4096 \<noteq> 0" and "length (filename h) \<le> 1003"
    and "block_file_size fs (Some h) < n"
    and "fopen_wb fs (block_file_path (filename h) ((n - 1) div 4096)) \<noteq> None"
  shows "\<exists>fs'. block_truncate fs (Some h) n = (0, fs') \<and> block_file_size fs' (Some h) = n"
  using assms by (rule block_truncate_grows)

theorem truncate_grows_size_witness:
  "block_file_size \<lparr>files = Map.empty, dirs = {''f.blocks''}\<rparr> (Some \<lparr>filename = ''f''\<rparr>) < 5 \<and>
   fopen_wb \<lparr>files = Map.empty, dirs = {''f.blocks''}\<rparr> (block_file_path ''f'' ((5 - 1) div 4096)) \<noteq> None \<and>
   (\<exists>fs'. block_truncate \<lparr>files = Map.empty, dirs = {''f.blocks''}\<rparr> (Some \<lparr>filename = ''f''\<rparr>) 5 = (0, fs') \<and>
          block_file_size fs' (Some \<lparr>filename = ''f''\<rparr>) = 5)"
proof -
  have s: "block_file_size \<lparr>files = Map.empty, dirs = {''f.blocks''}\<rparr> (Some \<lparr>filename = ''f''\<rparr>) = 0"
    using no_blocks_size [of "\<lparr>files = Map.empty, dirs = {''f.blocks''}\<rparr>" "\<lparr>filename = ''f''\<rparr>"]
      no_blocks_example by simp
  have o: "fopen_wb \<lparr>files = Map.empty, dirs = {''f.blocks''}\<rparr>
             (block_file_path (filename \<lparr>filename = ''f''\<rparr>) ((5 - 1) div 4096)) \<noteq> None"
    using fopen_wb_example by simp
  from truncate_grows_size [OF _ _ _ _ _ o] s fopen_wb_example show ?thesis by simp
qed

text \<open>
  C10 as stated fails when the boundary block file cannot be written. Here the block
  directory does not exist: truncating the empty virtual file to 5 bytes returns 0, and the
  size is still 0.
\<close>

theorem truncate_grows_size_counterexample:
  "block_file_size \<lparr>files = Map.empty, dirs = {''.''}\<rparr> (Some \<lparr>filename = ''f''\<rparr>) < 5 \<and>
   fst (block_truncate \<lparr>files = Map.empty, dirs = {''.''}\<rparr> (Some \<lparr>filename = ''f''\<rparr>) 5) = 0 \<and>
   block_file_size (snd (block_truncate \<lparr>files = Map.empty, dirs = {''.''}\<rparr> (Some \<lparr>filename = ''f''\<rparr>) 5))
     (Some \<lparr>filename = ''f''\<rparr>) \<noteq> 5"
proof -
  let ?G = "\<lparr>files = Map.empty, dirs = {''.''}\<rparr>"
  let ?h = "\<lparr>filename = ''f''\<rparr>"
  have nb: "no_blocks ?G ''f''" by (simp add: no_blocks_def stat_def block_file_path_def)
  have s: "block_file_size ?G (Some ?h) = 0" using no_blocks_size [of ?G ?h] nb by simp
  have nodir: "\<forall>k. (5 + 4095) div 4096 \<le> k \<and> k < 10000 \<longrightarrow> block_file_path (filename ?h) k \<notin> dirs ?G"
    by (simp add: block_file_path_def)
  have closed: "fopen_wb ?G (block_file_path ''f'' 0) = None"
    using parent_dir_block_file_path [of "''f''" 0] by (simp add: fopen_wb_def)
  from block_truncate_effect [OF _ _ _ nodir] closed obtain fs' where
    t: "block_truncate ?G (Some ?h) 5 = (0, fs')" and d: "dirs fs' = dirs ?G" and
    del: "\<forall>k. 1 \<le> k \<and> k < 10000 \<longrightarrow> files fs' (block_file_path ''f'' k) = None" and
    keep: "\<forall>P. (\<forall>k. 1 \<le> k \<and> k < 10000 \<longrightarrow> P \<noteq> block_file_path ''f'' k) \<and> P \<noteq> block_file_path ''f'' 0
             \<longrightarrow> files fs' P = files ?G P" and
    B: "files fs' (block_file_path ''f'' 0) = None"
    by auto
  have "files fs' (block_file_path ''f'' k) = None" for k
  proof -
    consider "k = 0" | "1 \<le> k" "k < 10000" | "k < 0 \<or> 10000 \<le> k" by linarith
    then show ?thesis
    proof cases
      case 1
      with B show ?thesis by simp
    next
      case 2
      with del show ?thesis by simp
    next
      case 3
      then have "\<forall>j. 1 \<le> j \<and> j < 10000 \<longrightarrow> block_file_path ''f'' k \<noteq> block_file_path ''f'' j"
        using block_file_path_inj [of "''f''" k] by auto
      moreover from 3 have "block_file_path ''f'' k \<noteq> block_file_path ''f'' 0"
        using block_file_path_inj [of "''f''" k 0] by auto
      ultimately show ?thesis using keep by simp
    qed
  qed
  then have "no_blocks fs' (filename ?h)" using d by (simp add: no_blocks_def stat_def block_file_path_def)
  from no_blocks_size [OF this] have "block_file_size fs' (Some ?h) = 0" by simp
  with s t show ?thesis by simp
qed

section \<open>The length of block files\<close>

lemma block_open_files: "block_open fs fname = (r, bf, fs') \<Longrightarrow> files fs' = files fs"
  by (auto simp: block_open_def ensure_block_dir_def mkdir_def Let_def
      split: if_splits sum.splits prod.splits)

lemma block_write_bounded:
  assumes "block_write fs bf buffer sz offset = (r, fs')"
    and "\<forall>p c. files fs p = Some c \<longrightarrow> length c \<le> BLOCK_SIZE"
  shows "\<forall>p c. files fs' p = Some c \<longrightarrow> length c \<le> BLOCK_SIZE"
proof (cases "\<exists>h b. bf = Some h \<and> buffer = Some b \<and> \<not> (sz < 0 \<or> offset < 0)")
  case True
  then obtain h b where "bf = Some h" "buffer = Some b" "\<not> (sz < 0 \<or> offset < 0)" by blast
  with assms(1) have "write_loop fs (filename h) b 0 (nat sz) (nat offset) 0 = (r, fs')"
    by (simp add: block_write_def)
  from write_loop_bounded [OF this assms(2)] show ?thesis .
next
  case False
  with assms(1) have "fs' = fs"
    by (auto simp: block_write_def split: option.splits if_splits)
  with assms(2) show ?thesis by simp
qed

lemma block_truncate_bounded:
  assumes "block_truncate fs bf sz = (r, fs')"
    and "\<forall>p c. files fs p = Some c \<longrightarrow> length c \<le> BLOCK_SIZE"
  shows "\<forall>p c. files fs' p = Some c \<longrightarrow> length c \<le> BLOCK_SIZE"
proof (cases "\<exists>h. bf = Some h \<and> 0 \<le> sz")
  case False
  with assms(1) have "fs' = fs"
    by (auto simp: block_truncate_def split: option.splits if_splits)
  with assms(2) show ?thesis by simp
next
  case True
  then obtain h where bf: "bf = Some h" and sz: "0 \<le> sz" by blast
  obtain ret fs1 where ul: "unlink_loop fs (filename h) (c_int ((sz + 4095) div 4096)) = (ret, fs1)"
    by (cases "unlink_loop fs (filename h) (c_int ((sz + 4095) div 4096))")
  from unlink_loop_frame [OF ul] assms(2)
  have b1: "\<forall>p c. files fs1 p = Some c \<longrightarrow> length c \<le> BLOCK_SIZE"
    by (metis option.distinct(1))
  have "0 \<le> sz mod 4096" "sz mod 4096 < 4096" by simp_all
  then have "c_int (sz mod 4096) = sz mod 4096" by (intro c_int_id) simp_all
  then have m: "nat (c_int (sz mod 4096)) \<le> BLOCK_SIZE" by simp
  obtain rc bp where gp: "get_block_path (filename h) (c_int ((sz - 1) div 4096)) = (rc, bp)"
    by (cases "get_block_path (filename h) (c_int ((sz - 1) div 4096))")
  from assms(1) have "fs' = fs1 \<or>
    (\<exists>data. fs' = fs1\<lparr>files := (files fs1)(bp \<mapsto> take (nat (c_int (sz mod 4096))) data)\<rparr>)"
    unfolding bf block_truncate_unfold [OF sz] ul gp prod.case
    by (auto simp: fopen_wb_def fwrite_def split: if_splits option.splits)
  then show ?thesis
  proof
    assume "fs' = fs1"
    with b1 show ?thesis by simp
  next
    assume "\<exists>data. fs' = fs1\<lparr>files := (files fs1)(bp \<mapsto> take (nat (c_int (sz mod 4096))) data)\<rparr>"
    then obtain data where
      "fs' = fs1\<lparr>files := (files fs1)(bp \<mapsto> take (nat (c_int (sz mod 4096))) data)\<rparr>" by blast
    with b1 m show ?thesis by auto
  qed
qed

text \<open>
  C9. In every state that the engine reaches from a state without files, every file, so
  every block file, has at most 4096 bytes: a write stores blocks of 4096 bytes, and the
  boundary rewrite of truncate stores fewer than 4096 bytes.
\<close>

theorem block_files_bounded:
  "reachable fs \<Longrightarrow> files fs p = Some c \<Longrightarrow> length c \<le> BLOCK_SIZE"
proof -
  assume "reachable fs"
  then have "\<forall>p c. files fs p = Some c \<longrightarrow> length c \<le> BLOCK_SIZE"
  proof (induction rule: reachable.induct)
    case (reachable_empty ds)
    show ?case by simp
  next
    case (reachable_open fs fname r bf fs')
    then show ?case by (simp add: block_open_files)
  next
    case (reachable_write fs bf buffer sz offset r fs')
    then show ?case using block_write_bounded by blast
  next
    case (reachable_truncate fs bf sz r fs')
    then show ?case using block_truncate_bounded by blast
  qed
  moreover assume "files fs p = Some c"
  ultimately show ?thesis by blast
qed

theorem block_files_bounded_witness:
  "reachable (snd (block_write \<lparr>files = Map.empty, dirs = {''f.blocks''}\<rparr> (Some \<lparr>filename = ''f''\<rparr>)
          (Some [1]) 1 40960000)) \<and>
   (\<exists>c. files (snd (block_write \<lparr>files = Map.empty, dirs = {''f.blocks''}\<rparr> (Some \<lparr>filename = ''f''\<rparr>)
          (Some [1]) 1 40960000)) (block_file_path ''f'' 10000) = Some c \<and> length c \<le> BLOCK_SIZE)"
proof -
  let ?w = "block_write \<lparr>files = Map.empty, dirs = {''f.blocks''}\<rparr> (Some \<lparr>filename = ''f''\<rparr>)
          (Some [1]) 1 40960000"
  have "?w = (fst ?w, snd ?w)" by simp
  with reachable_empty [of "{''f.blocks''}"] have r: "reachable (snd ?w)" by (rule reachable_write)
  from write_block_10000(3) obtain c where c: "files (snd ?w) (block_file_path ''f'' 10000) = Some c"
    by blast
  from block_files_bounded [OF r c] c r show ?thesis by blast
qed

section \<open>Paths that do not fit\<close>

lemma fmt_06d_10000: "fmt_06d 10000 = ''010000''"
  by (simp add: fmt_06d_def zero_pad_def dec_digits.simps digit_char_def)

lemma length_long_name: "length long_name = 1004"
  by (simp add: long_name_def)

lemma get_block_path_long_name:
  "get_block_path long_name 10000 = (- 1, long_name @ ''.blocks/block_01000'')"
  by (simp add: get_block_path_def get_block_dir_def snprintf_def fmt_06d_10000 length_long_name)

lemma c_int_small: "c_int 1 = 1" "c_int 10001 = 10001"
  by (simp_all add: c_int_id)

text \<open>
  C8 in \<^verbatim>\<open>block_truncate\<close>. With a file name of 1004 characters the path of block 10000
  has 1024 characters and \<^verbatim>\<open>get_block_path\<close> reports \<open>-1\<close>. Truncating to 40960001
  bytes skips the deletion loop (it starts at index 10001), and the boundary rewrite does
  not look at the result of \<^verbatim>\<open>get_block_path\<close>: the call returns 0 and creates a file
  of one byte at the path cut to 1023 characters, \<^verbatim>\<open>.../block_01000\<close>.
\<close>

theorem truncate_writes_to_cut_path:
  "fst (get_block_path long_name 10000) = - 1 \<and>
   block_truncate \<lparr>files = Map.empty, dirs = {long_name @ ''.blocks''}\<rparr>
       (Some \<lparr>filename = long_name\<rparr>) 40960001
     = (0, \<lparr>files = [long_name @ ''.blocks/block_01000'' \<mapsto> [0]],
            dirs = {long_name @ ''.blocks''}\<rparr>)"
proof -
  let ?G = "\<lparr>files = Map.empty, dirs = {long_name @ ''.blocks''}\<rparr>"
  let ?P = "long_name @ ''.blocks/block_01000''"
  have ul: "unlink_loop ?G long_name 10001 = (False, ?G)" by (rule unlink_loop_stop) simp
  have "parent_dir ((long_name @ ''.blocks'') @ CHR ''/'' # ''block_01000'') = long_name @ ''.blocks''"
    by (rule parent_dir_append) simp
  then have pd: "parent_dir ?P = long_name @ ''.blocks''" by simp
  have ow: "fopen_wb ?G ?P = Some (?G\<lparr>files := (files ?G)(?P \<mapsto> [])\<rparr>)"
    by (simp add: fopen_wb_def pd)
  have rb: "fopen_rb ?G ?P = None" by (simp add: fopen_rb_def)
  have data: "take (Suc 0) (memset (replicate BLOCK_SIZE 0) 0 0 BLOCK_SIZE) = [0 :: byte]"
    by (simp add: memset_def memcpy_def take_Suc_conv_app_nth)
  have "block_truncate ?G (Some \<lparr>filename = long_name\<rparr>) 40960001
     = (0, \<lparr>files = [?P \<mapsto> [0]], dirs = {long_name @ ''.blocks''}\<rparr>)"
    unfolding block_truncate_unfold [of 40960001, simplified]
    by (simp add: c_int_small c_int_10000 ul get_block_path_long_name ow rb fwrite_def data)
  then show ?thesis by (simp add: get_block_path_long_name)
qed

section \<open>The read contract\<close>









end
